theory Spec2Isabelle
  imports Complex_Main
begin

section \<open>Data model of the beam calculator\<close>

text \<open>
  The engine of \<^verbatim>\<open>BeamCalculator.tsx\<close> works on JavaScript numbers. They are
  modelled here as exact reals: equality, ordering, sums and products are those of
  the real line, so rounding, infinities and NaN are outside the model. Arrays are
  lists; every index the pipeline reads is shown to lie within bounds (see the shape
  lemmas of the assembler and of the solver).
\<close>

datatype SupportType = Free | Pinned | Fixed

record Support =
  support_id :: nat
  support_positionMm :: real
  support_type :: SupportType

record PointLoad =
  load_id :: nat
  load_positionMm :: real
  magnitudeKn :: real

record Udl =
  udl_id :: nat
  startMm :: real
  endMm :: real
  magnitudeKnPerM :: real

record Node =
  node_x :: real
  supportType :: SupportType

section \<open>Mesh builder\<close>

text \<open>
  \<^verbatim>\<open>new Set(values)\<close> keeps the first occurrence of every value, in insertion
  order; \<^verbatim>\<open>Array.from\<close> lists them in that order.
\<close>

definition new_Set :: "real list \<Rightarrow> real list" where
  "new_Set values = foldl (\<lambda>s v. if v \<in> set s then s else s @ [v]) [] values"

text \<open>\<^verbatim>\<open>Array.from(new Set(values)).sort((a, b) => a - b)\<close>\<close>

definition uniqueSorted :: "real list \<Rightarrow> real list" where
  "uniqueSorted values = sort (new_Set values)"

text \<open>
  \<^verbatim>\<open>supports.find(...)\<close> returns the first matching item or \<^verbatim>\<open>undefined\<close>;
  \<^verbatim>\<open>support?.type ?? "free"\<close> then defaults to free.
\<close>

definition nodeAt :: "Support list \<Rightarrow> real \<Rightarrow> Node" where
  "nodeAt supports position =
     (case find (\<lambda>item. support_positionMm item = position) supports of
        Some support \<Rightarrow> \<lparr>node_x = position, supportType = support_type support\<rparr>
      | None \<Rightarrow> \<lparr>node_x = position, supportType = Free\<rparr>)"

definition basePositions :: "real \<Rightarrow> Support list \<Rightarrow> PointLoad list \<Rightarrow> Udl list \<Rightarrow> real list" where
  "basePositions lengthMm supports pointLoads udls =
     [0, lengthMm]
       @ map support_positionMm supports
       @ map load_positionMm pointLoads
       @ concat (map (\<lambda>udl. [startMm udl, endMm udl]) udls)"

definition buildNodes :: "real \<Rightarrow> Support list \<Rightarrow> PointLoad list \<Rightarrow> Udl list \<Rightarrow> Node list" where
  "buildNodes lengthMm supports pointLoads udls =
     (let positions = uniqueSorted
            (filter (\<lambda>pos. pos \<ge> 0 \<and> pos \<le> lengthMm)
               (basePositions lengthMm supports pointLoads udls))
      in map (nodeAt supports) positions)"

section \<open>Element assembler\<close>

record ElementData =
  el_index :: nat
  el_length :: real
  el_wNPerMm :: real
  el_kLocal :: "real list list"
  el_fFixed :: "real list"

text \<open>\<^verbatim>\<open>Array.prototype.findIndex\<close>: the first index that satisfies the test, or -1 (here \<open>None\<close>).\<close>

fun findIndex :: "('a \<Rightarrow> bool) \<Rightarrow> 'a list \<Rightarrow> nat option" where
  "findIndex P [] = None"
| "findIndex P (y # ys) = (if P y then Some 0 else map_option Suc (findIndex P ys))"

definition mapLoadsToNodes :: "Node list \<Rightarrow> PointLoad list \<Rightarrow> real list" where
  "mapLoadsToNodes nodes pointLoads =
     foldl (\<lambda>nodeLoads load.
        (case findIndex (\<lambda>node. node_x node = load_positionMm load) nodes of
           Some index \<Rightarrow> nodeLoads[index := nodeLoads ! index + - magnitudeKn load * 1000]
         | None \<Rightarrow> nodeLoads))
       (replicate (length nodes) 0) pointLoads"

definition getElementUdl :: "Udl list \<Rightarrow> real \<Rightarrow> real \<Rightarrow> real" where
  "getElementUdl udls xStart xEnd =
     (let mid = (xStart + xEnd) / 2
      in foldl (\<lambda>sum udl. sum + magnitudeKnPerM udl) 0
           (filter (\<lambda>udl. mid \<ge> startMm udl \<and> mid \<le> endMm udl) udls))"

definition kLocalOf :: "real \<Rightarrow> real \<Rightarrow> real list list" where
  "kLocalOf EI L =
     (let L2 = L * L; L3 = L2 * L; factor = EI / L3
      in map (\<lambda>row. map (\<lambda>value. value * factor) row)
           [[12, 6 * L, - 12, 6 * L],
            [6 * L, 4 * L2, - 6 * L, 2 * L2],
            [- 12, - 6 * L, 12, - 6 * L],
            [6 * L, 2 * L2, - 6 * L, 4 * L2]])"

definition fFixedOf :: "real \<Rightarrow> real \<Rightarrow> real list" where
  "fFixedOf wNPerMm L =
     (let L2 = L * L
      in [(wNPerMm * L) / 2, (wNPerMm * L2) / 12, (wNPerMm * L) / 2, - (wNPerMm * L2) / 12])"

definition dofMapOf :: "nat \<Rightarrow> nat list" where
  "dofMapOf i = [i * 2, i * 2 + 1, (i + 1) * 2, (i + 1) * 2 + 1]"

text \<open>
  The two nested loops over \<open>r\<close> and \<open>c\<close> that add the local matrix and the local
  force vector into \<open>K\<close> and \<open>F\<close>.
\<close>

definition scatterK :: "nat list \<Rightarrow> real list list \<Rightarrow> nat \<Rightarrow> real list list \<Rightarrow> real list list" where
  "scatterK dofMap kLocal r K =
     fold (\<lambda>c K. K[dofMap ! r := (K ! (dofMap ! r))[dofMap ! c := K ! (dofMap ! r) ! (dofMap ! c) + kLocal ! r ! c]])
       [0..<4] K"

definition scatter :: "nat list \<Rightarrow> real list list \<Rightarrow> real list \<Rightarrow>
    real list list \<times> real list \<Rightarrow> real list list \<times> real list" where
  "scatter dofMap kLocal fFixed =
     fold (\<lambda>r (K, F). (scatterK dofMap kLocal r K, F[dofMap ! r := F ! (dofMap ! r) + fFixed ! r]))
       [0..<4]"

definition mkElement :: "real \<Rightarrow> Udl list \<Rightarrow> Node list \<Rightarrow> nat \<Rightarrow> ElementData" where
  "mkElement EI udls nodes i =
     (let x1 = node_x (nodes ! i);
          x2 = node_x (nodes ! (i + 1));
          L = x2 - x1;
          wKnPerM = getElementUdl udls x1 x2;
          w = - wKnPerM;
          wNPerMm = w
      in \<lparr>el_index = i, el_length = L, el_wNPerMm = wNPerMm,
          el_kLocal = kLocalOf EI L, el_fFixed = fFixedOf wNPerMm L\<rparr>)"

definition assembleElement :: "real \<Rightarrow> Udl list \<Rightarrow> Node list \<Rightarrow> nat \<Rightarrow>
    real list list \<times> real list \<times> ElementData list \<Rightarrow> real list list \<times> real list \<times> ElementData list" where
  "assembleElement EI udls nodes i = (\<lambda>(K, F, elementData).
     (let x1 = node_x (nodes ! i);
          x2 = node_x (nodes ! (i + 1));
          L = x2 - x1
      in if L \<le> 0 then (K, F, elementData)
         else
           (let element = mkElement EI udls nodes i;
                (K', F') = scatter (dofMapOf i) (el_kLocal element) (el_fFixed element) (K, F)
            in (K', F', elementData @ [element]))))"

definition initialF :: "Node list \<Rightarrow> PointLoad list \<Rightarrow> real list" where
  "initialF nodes pointLoads =
     (let nodePointLoads = mapLoadsToNodes nodes pointLoads
      in fold (\<lambda>index F. F[index * 2 := F ! (index * 2) + nodePointLoads ! index])
           [0..<length nodes] (replicate (length nodes * 2) 0))"

definition assembleSystem :: "Node list \<Rightarrow> real \<Rightarrow> real \<Rightarrow> PointLoad list \<Rightarrow> Udl list \<Rightarrow>
    real list list \<times> real list \<times> ElementData list" where
  "assembleSystem nodes youngsModulusMpa inertiaMm4 pointLoads udls =
     (let dof = length nodes * 2;
          K = replicate dof (replicate dof 0);
          F = initialF nodes pointLoads;
          EI = youngsModulusMpa * inertiaMm4
      in fold (assembleElement EI udls nodes) [0..<length nodes - 1] (K, F, []))"

section \<open>Constraint reducer\<close>

definition constrainedDofs :: "Node list \<Rightarrow> nat list" where
  "constrainedDofs nodes =
     concat (map (\<lambda>(node, index).
         (if supportType node = Pinned then [index * 2] else [])
           @ (if supportType node = Fixed then [index * 2, index * 2 + 1] else []))
       (zip nodes [0..<length nodes]))"

definition applyBoundaryConditions :: "Node list \<Rightarrow> real list list \<Rightarrow> real list \<Rightarrow>
    nat list \<times> nat list \<times> real list list \<times> real list" where
  "applyBoundaryConditions nodes K F =
     (let constrained = constrainedDofs nodes;
          free = filter (\<lambda>i. i \<notin> set constrained) [0..<length K];
          Kff = map (\<lambda>r. map (\<lambda>c. K ! r ! c) free) free;
          Ff = map (\<lambda>r. F ! r) free
      in (constrained, free, Kff, Ff))"

section \<open>Linear solver\<close>

text \<open>The search for the row with the largest absolute value in column \<open>k\<close>.\<close>

definition findMaxRow :: "real list list \<Rightarrow> nat \<Rightarrow> nat \<Rightarrow> nat" where
  "findMaxRow M k n =
     fold (\<lambda>i maxRow. if \<bar>M ! i ! k\<bar> > \<bar>M ! maxRow ! k\<bar> then i else maxRow) [k + 1..<n] k"

text \<open>The destructuring swap \<^verbatim>\<open>[a[k], a[m]] = [a[m], a[k]]\<close>.\<close>

definition swapAt :: "'a list \<Rightarrow> nat \<Rightarrow> nat \<Rightarrow> 'a list" where
  "swapAt a k m = a[k := a ! m, m := a ! k]"

definition normalizeRow :: "nat \<Rightarrow> nat \<Rightarrow> real list list \<times> real list \<Rightarrow> real list list \<times> real list" where
  "normalizeRow n k = (\<lambda>(M, x).
     (let pivot = M ! k ! k
      in (M[k := fold (\<lambda>j row. row[j := row ! j / pivot]) [k..<n] (M ! k)],
          x[k := x ! k / pivot])))"

definition eliminateRow :: "nat \<Rightarrow> nat \<Rightarrow> nat \<Rightarrow> real list list \<times> real list \<Rightarrow> real list list \<times> real list" where
  "eliminateRow n k i = (\<lambda>(M, x).
     if i = k then (M, x)
     else
       (let factor = M ! i ! k
        in (M[i := fold (\<lambda>j row. row[j := row ! j - factor * M ! k ! j]) [k..<n] (M ! i)],
            x[i := x ! i - factor * x ! k])))"

text \<open>One pass of the outer loop after the pivot test: swap, normalise, eliminate.\<close>

definition pivotStep :: "nat \<Rightarrow> nat \<Rightarrow> real list list \<times> real list \<Rightarrow> real list list \<times> real list" where
  "pivotStep n k = (\<lambda>(M, x).
     (let maxRow = findMaxRow M k n
      in fold (eliminateRow n k) [0..<n]
           (normalizeRow n k (swapAt M k maxRow, swapAt x k maxRow))))"

definition pivotTooSmall :: "nat \<Rightarrow> nat \<Rightarrow> real list list \<times> real list \<Rightarrow> bool" where
  "pivotTooSmall n k = (\<lambda>(M, x). \<bar>M ! (findMaxRow M k n) ! k\<bar> < 1 / 1000000000)"

function solveFrom :: "nat \<Rightarrow> nat \<Rightarrow> real list list \<times> real list \<Rightarrow> real list option" where
  "solveFrom n k Mx =
     (if k < n then
        (if pivotTooSmall n k Mx then None
         else solveFrom n (k + 1) (pivotStep n k Mx))
      else Some (snd Mx))"
  by pat_completeness auto
termination
  by (relation "measure (\<lambda>(n, k, Mx). n - k)") auto

definition solveLinearSystem :: "real list list \<Rightarrow> real list \<Rightarrow> real list option" where
  "solveLinearSystem A b =
     (let n = length b;
          M = map (\<lambda>row. row) A;
          x = b
      in solveFrom n 0 (M, x))"

section \<open>Reaction and response evaluator\<close>

record ReactionRow =
  positionMm :: real
  verticalKn :: real
  momentKnM :: real
  row_type :: SupportType

record Sample =
  sample_x :: real
  shear :: real
  moment :: real
  deflection :: real

text \<open>\<^verbatim>\<open>row.reduce((sum, value, j) => sum + value * u[j], 0)\<close>\<close>

definition rowTimes :: "real list \<Rightarrow> real list \<Rightarrow> real" where
  "rowTimes row u = foldl (\<lambda>sum (value, j). sum + value * u ! j) 0 (zip row [0..<length row])"

definition elementSamples :: "Node list \<Rightarrow> real list \<Rightarrow> ElementData \<Rightarrow> Sample list" where
  "elementSamples nodes displacements element =
     (let index = el_index element;
          len = el_length element;
          wNPerMm = el_wNPerMm element;
          dofMap = dofMapOf index;
          uLocal = map (\<lambda>dof. displacements ! dof) dofMap;
          endForces = map (\<lambda>(row, r). rowTimes row uLocal - el_fFixed element ! r)
                        (zip (el_kLocal element) [0..<length (el_kLocal element)]);
          v1 = uLocal ! 0;
          t1 = uLocal ! 1;
          v2 = uLocal ! 2;
          t2 = uLocal ! 3;
          numPoints = (40 :: nat)
      in map (\<lambda>i.
           (let x = (len * real i) / real numPoints;
                r = x / len;
                n1 = 1 - 3 * r * r + 2 * r * r * r;
                n2 = len * (r - 2 * r * r + r * r * r);
                n3 = 3 * r * r - 2 * r * r * r;
                n4 = len * (- r * r + r * r * r);
                deflection = n1 * v1 + n2 * t1 + n3 * v2 + n4 * t2;
                shear = endForces ! 0 - wNPerMm * x;
                moment = endForces ! 1 + endForces ! 0 * x - (wNPerMm * x * x) / 2
            in \<lparr>sample_x = node_x (nodes ! index) + x, shear = shear,
                moment = moment, deflection = deflection\<rparr>))
           [0..<numPoints + 1])"

definition computeDiagrams :: "Node list \<Rightarrow> ElementData list \<Rightarrow> real list \<Rightarrow> Sample list" where
  "computeDiagrams nodes elementData displacements =
     concat (map (elementSamples nodes displacements) elementData)"

section \<open>The analysis pipeline\<close>

datatype AnalysisOutcome =
    AnalysisResult "Node list" "ReactionRow list" "Sample list"
  | AnalysisError string

definition inertiaOf :: "real \<Rightarrow> real \<Rightarrow> real" where
  "inertiaOf widthMm depthMm = (widthMm * depthMm ^ 3) / 12"

definition unstableMessage :: string where
  "unstableMessage =
     ''The system is unstable. Add or adjust supports so at least one vertical and one rotational restraint exists.''"

definition expandDisplacements :: "nat \<Rightarrow> nat list \<Rightarrow> real list \<Rightarrow> real list" where
  "expandDisplacements dof free freeDisplacements =
     fold (\<lambda>(index, i) displacements. displacements[index := freeDisplacements ! i])
       (zip free [0..<length free]) (replicate dof 0)"

definition reactionsOf :: "real list list \<Rightarrow> real list \<Rightarrow> real list \<Rightarrow> real list" where
  "reactionsOf K F displacements =
     map (\<lambda>(row, i). rowTimes row displacements - F ! i) (zip K [0..<length K])"

definition reactionTableOf :: "Node list \<Rightarrow> real list \<Rightarrow> ReactionRow list" where
  "reactionTableOf nodes reactions =
     List.map_filter (\<lambda>(node, index).
        (let vertical = reactions ! (index * 2);
             moment = reactions ! (index * 2 + 1)
         in if supportType node = Free then None
            else Some \<lparr>positionMm = node_x node, verticalKn = vertical / 1000,
                       momentKnM = moment / 1000000, row_type = supportType node\<rparr>))
       (zip nodes [0..<length nodes])"

definition analysis :: "real \<Rightarrow> real \<Rightarrow> real \<Rightarrow> real \<Rightarrow> Support list \<Rightarrow> PointLoad list \<Rightarrow> Udl list \<Rightarrow>
    AnalysisOutcome" where
  "analysis lengthMm widthMm depthMm youngsModulusMpa supports pointLoads udls =
     (let inertiaMm4 = inertiaOf widthMm depthMm;
          nodes = buildNodes lengthMm supports pointLoads udls;
          (K, F, elementData) = assembleSystem nodes youngsModulusMpa inertiaMm4 pointLoads udls;
          (constrained, free, Kff, Ff) = applyBoundaryConditions nodes K F
      in (case solveLinearSystem Kff Ff of
            None \<Rightarrow> AnalysisError unstableMessage
          | Some freeDisplacements \<Rightarrow>
              (let displacements = expandDisplacements (length K) free freeDisplacements;
                   reactions = reactionsOf K F displacements;
                   reactionTable = reactionTableOf nodes reactions;
                   diagrams = computeDiagrams nodes elementData displacements
               in AnalysisResult nodes reactionTable diagrams)))"

section \<open>Concrete inputs used by the examples\<close>

definition demoSupports :: "Support list" where
  "demoSupports =
     [\<lparr>support_id = 1, support_positionMm = 0, support_type = Pinned\<rparr>,
      \<lparr>support_id = 2, support_positionMm = 0, support_type = Fixed\<rparr>]"

definition demoNodes :: "Node list" where
  "demoNodes = [\<lparr>node_x = 0, supportType = Pinned\<rparr>, \<lparr>node_x = 1, supportType = Free\<rparr>]"

definition demoFreeNodes :: "Node list" where
  "demoFreeNodes = [\<lparr>node_x = 0, supportType = Free\<rparr>, \<lparr>node_x = 1, supportType = Free\<rparr>]"

definition demoK :: "real list list" where
  "demoK = [[1, 2, 3, 4], [5, 6, 7, 8], [9, 10, 11, 12], [13, 14, 15, 16]]"

definition demoF :: "real list" where
  "demoF = [21, 22, 23, 24]"

definition demoFixedSupports :: "Support list" where
  "demoFixedSupports =
     [\<lparr>support_id = 1, support_positionMm = 0, support_type = Fixed\<rparr>,
      \<lparr>support_id = 2, support_positionMm = 1, support_type = Fixed\<rparr>]"

definition demoTipLoad :: "PointLoad list" where
  "demoTipLoad = [\<lparr>load_id = 1, load_positionMm = 1, magnitudeKn = 3\<rparr>]"

section \<open>Notions used to state the solver's behaviour\<close>

text \<open>The working matrix and vector after \<open>k\<close> passes of the elimination loop.\<close>

definition eliminationState :: "nat \<Rightarrow> real list list \<Rightarrow> real list \<Rightarrow> nat \<Rightarrow> real list list \<times> real list" where
  "eliminationState n A b k = fold (pivotStep n) [0..<k] (A, b)"

text \<open>The largest absolute value in column \<open>k\<close> among the rows \<open>k, \<dots>, n - 1\<close>.\<close>

definition columnMax :: "real list list \<Rightarrow> nat \<Rightarrow> nat \<Rightarrow> real" where
  "columnMax M k n = Max ((\<lambda>i. \<bar>M ! i ! k\<bar>) ` {k..<n})"

definition demoPinnedSupport :: "Support list" where
  "demoPinnedSupport = [\<lparr>support_id = 1, support_positionMm = 0, support_type = Pinned\<rparr>]"

section \<open>The assembled system as the specification describes it\<close>

text \<open>
  The contribution of one element to entry \<open>(a, b)\<close> of the global matrix and to entry
  \<open>a\<close> of the global load vector: its local entries, placed at the DOF indices of its
  DOF map.
\<close>

definition elementK :: "ElementData \<Rightarrow> nat \<Rightarrow> nat \<Rightarrow> real" where
  "elementK e a b =
     (\<Sum>r\<leftarrow>[0..<4]. \<Sum>c\<leftarrow>[0..<4].
        if dofMapOf (el_index e) ! r = a \<and> dofMapOf (el_index e) ! c = b
        then el_kLocal e ! r ! c else 0)"

definition elementF :: "ElementData \<Rightarrow> nat \<Rightarrow> real" where
  "elementF e a =
     (\<Sum>r\<leftarrow>[0..<4]. if dofMapOf (el_index e) ! r = a then el_fFixed e ! r else 0)"

text \<open>
  The point loads' share of entry \<open>a\<close> of the load vector: every point load adds
  \<open>-(magnitude * 1000)\<close> at the vertical DOF of the node at its exact position.
\<close>

definition pointLoadF :: "Node list \<Rightarrow> PointLoad list \<Rightarrow> nat \<Rightarrow> real" where
  "pointLoadF nodes pls a =
     (\<Sum>p\<leftarrow>pls.
        (case findIndex (\<lambda>node. node_x node = load_positionMm p) nodes of
           Some i \<Rightarrow> if a = 2 * i then - (magnitudeKn p * 1000) else 0
         | None \<Rightarrow> 0))"

text \<open>The element record of the node pair \<open>(i, i + 1)\<close>, in the specification's words.\<close>

definition specElement :: "real \<Rightarrow> Udl list \<Rightarrow> Node list \<Rightarrow> nat \<Rightarrow> ElementData" where
  "specElement EI udls nodes i =
     (let L = node_x (nodes ! (i + 1)) - node_x (nodes ! i);
          mid = (node_x (nodes ! i) + node_x (nodes ! (i + 1))) / 2;
          w = - (\<Sum>u\<leftarrow>udls. if startMm u \<le> mid \<and> mid \<le> endMm u then magnitudeKnPerM u else 0);
          s = EI / L ^ 3
      in \<lparr>el_index = i, el_length = L, el_wNPerMm = w,
          el_kLocal =
            [[12 * s, 6 * L * s, - 12 * s, 6 * L * s],
             [6 * L * s, 4 * L\<^sup>2 * s, - 6 * L * s, 2 * L\<^sup>2 * s],
             [- 12 * s, - 6 * L * s, 12 * s, - 6 * L * s],
             [6 * L * s, 2 * L\<^sup>2 * s, - 6 * L * s, 4 * L\<^sup>2 * s]],
          el_fFixed = [w * L / 2, w * L\<^sup>2 / 12, w * L / 2, - (w * L\<^sup>2 / 12)]\<rparr>)"

definition demoUdl :: "Udl list" where
  "demoUdl = [\<lparr>udl_id = 1, startMm = 0, endMm = 1, magnitudeKnPerM = 2\<rparr>]"

section \<open>The diagram samples as the specification describes them\<close>

text \<open>
  Local end forces of an element: (local stiffness) times (local displacement
  sub-vector) minus (local fixed-end forces).
\<close>

definition endForce :: "ElementData \<Rightarrow> real list \<Rightarrow> nat \<Rightarrow> real" where
  "endForce e disp r =
     (\<Sum>c\<leftarrow>[0..<4]. el_kLocal e ! r ! c * disp ! (dofMapOf (el_index e) ! c)) - el_fFixed e ! r"

text \<open>The cubic Hermite interpolation of the deflection at local coordinate \<open>x\<close>.\<close>

definition hermite :: "real \<Rightarrow> real \<Rightarrow> real \<Rightarrow> real \<Rightarrow> real \<Rightarrow> real \<Rightarrow> real" where
  "hermite L v1 t1 v2 t2 x =
     (let r = x / L
      in (1 - 3 * r\<^sup>2 + 2 * r ^ 3) * v1 + L * (r - 2 * r\<^sup>2 + r ^ 3) * t1
         + (3 * r\<^sup>2 - 2 * r ^ 3) * v2 + L * (- r\<^sup>2 + r ^ 3) * t2)"

text \<open>Sample number \<open>i\<close> (of 0 to 40) of an element.\<close>

definition specSample :: "Node list \<Rightarrow> real list \<Rightarrow> ElementData \<Rightarrow> nat \<Rightarrow> Sample" where
  "specSample nodes disp e i =
     (let p = el_index e;
          L = el_length e;
          x = L * real i / 40
      in \<lparr>sample_x = node_x (nodes ! p) + x,
          shear = endForce e disp 0 - el_wNPerMm e * x,
          moment = endForce e disp 1 + endForce e disp 0 * x - el_wNPerMm e * x\<^sup>2 / 2,
          deflection = hermite L (disp ! (2 * p)) (disp ! (2 * p + 1))
                         (disp ! (2 * (p + 1))) (disp ! (2 * (p + 1) + 1)) x\<rparr>)"

section \<open>Notions used in the correctness proof of the solver\<close>

definition wellShaped :: "nat \<Rightarrow> real list list \<Rightarrow> real list \<Rightarrow> bool" where
  "wellShaped n M x = (length M = n \<and> (\<forall>i < n. length (M ! i) = n) \<and> length x = n)"

definition dotRow :: "nat \<Rightarrow> real list \<Rightarrow> real list \<Rightarrow> real" where
  "dotRow n row y = (\<Sum>j < n. row ! j * y ! j)"

text \<open>\<open>y\<close> solves the system with matrix \<open>M\<close> and right-hand side \<open>x\<close>.\<close>

definition solves :: "nat \<Rightarrow> real list list \<Rightarrow> real list \<Rightarrow> real list \<Rightarrow> bool" where
  "solves n M x y = (\<forall>i < n. dotRow n (M ! i) y = x ! i)"

text \<open>The first \<open>k\<close> columns of \<open>M\<close> are those of the unit matrix.\<close>

definition unitCols :: "nat \<Rightarrow> nat \<Rightarrow> real list list \<Rightarrow> bool" where
  "unitCols n k M = (\<forall>i < n. \<forall>j < k. M ! i ! j = (if i = j then 1 else 0))"

text \<open>
  A rigid-body motion of the mesh: vertical translation \<open>t\<close> plus rotation \<open>th\<close> about the
  origin, as a full displacement vector (translation and rotation of every node).
\<close>

definition rigidBody :: "real \<Rightarrow> real \<Rightarrow> Node list \<Rightarrow> real list" where
  "rigidBody t th nodes = concat (map (\<lambda>nd. [t + th * node_x nd, th]) nodes)"

section \<open>Properties of the mesh builder\<close>

lemma new_Set_aux:
  "distinct s \<Longrightarrow>
   distinct (foldl (\<lambda>s v. if v \<in> set s then s else s @ [v]) s vs) \<and>
   set (foldl (\<lambda>s v. if v \<in> set s then s else s @ [v]) s vs) = set s \<union> set vs"
  by (induction vs arbitrary: s) auto

lemma distinct_new_Set: "distinct (new_Set vs)"
  using new_Set_aux [of "[]" vs] by (simp add: new_Set_def)

lemma set_new_Set: "set (new_Set vs) = set vs"
  using new_Set_aux [of "[]" vs] by (simp add: new_Set_def)

lemma uniqueSorted_eq: "uniqueSorted vs = sorted_list_of_set (set vs)"
proof -
  have "sorted_list_of_set (set (new_Set vs)) = sort (new_Set vs)"
    by (rule sorted_list_of_set_sort_remdups [THEN trans]) (simp add: distinct_new_Set distinct_remdups_id)
  then show ?thesis
    by (simp add: uniqueSorted_def set_new_Set)
qed

lemma set_basePositions:
  "set (basePositions l sps pl ud) =
     {0, l} \<union> support_positionMm ` set sps \<union> load_positionMm ` set pl
       \<union> startMm ` set ud \<union> endMm ` set ud"
  by (auto simp: basePositions_def)

lemma map_node_x_buildNodes:
  "map node_x (buildNodes l sps pl ud) =
     sorted_list_of_set {p \<in> set (basePositions l sps pl ud). 0 \<le> p \<and> p \<le> l}"
proof -
  have "node_x \<circ> nodeAt sps = id"
    by (auto simp: nodeAt_def fun_eq_iff split: option.splits)
  then show ?thesis
    by (simp add: buildNodes_def uniqueSorted_eq)
qed

lemma strict_sorted_buildNodes: "sorted_wrt (<) (map node_x (buildNodes l sps pl ud))"
  unfolding map_node_x_buildNodes by simp


lemma find_filter: "find P xs = (case filter P xs of [] \<Rightarrow> None | y # _ \<Rightarrow> Some y)"
  by (induction xs) auto

lemma nodeAt_x [simp]: "node_x (nodeAt sps p) = p"
  by (simp add: nodeAt_def split: option.splits)

lemma buildNodes_nodeAt:
  "nd \<in> set (buildNodes l sps pl ud) \<Longrightarrow> nd = nodeAt sps (node_x nd)"
  by (auto simp: buildNodes_def)

text \<open>
  Claim C5. For every input the mesh builder returns exactly the strictly ascending,
  duplicate-free sequence of the candidate positions (0, the length, the support and
  point-load positions, the UDL starts and ends) that lie within \<open>[0, length]\<close>; a
  node whose position carries a support definition gets the kind of one of them, any
  other node is free.
\<close>

theorem buildNodes_mesh:
  "map node_x (buildNodes l sps pl ud) =
     sorted_list_of_set
       {p \<in> {0, l} \<union> support_positionMm ` set sps \<union> load_positionMm ` set pl
              \<union> startMm ` set ud \<union> endMm ` set ud. 0 \<le> p \<and> p \<le> l}
   \<and> sorted_wrt (<) (map node_x (buildNodes l sps pl ud))
   \<and> (\<forall>nd \<in> set (buildNodes l sps pl ud).
         (\<exists>s \<in> set sps. support_positionMm s = node_x nd) \<longrightarrow>
         (\<exists>s \<in> set sps. support_positionMm s = node_x nd \<and> supportType nd = support_type s))
   \<and> (\<forall>nd \<in> set (buildNodes l sps pl ud).
         (\<forall>s \<in> set sps. support_positionMm s \<noteq> node_x nd) \<longrightarrow> supportType nd = Free)"
proof (intro conjI ballI impI)
  show "map node_x (buildNodes l sps pl ud) =
     sorted_list_of_set
       {p \<in> {0, l} \<union> support_positionMm ` set sps \<union> load_positionMm ` set pl
              \<union> startMm ` set ud \<union> endMm ` set ud. 0 \<le> p \<and> p \<le> l}"
    by (simp only: map_node_x_buildNodes set_basePositions)
  show "sorted_wrt (<) (map node_x (buildNodes l sps pl ud))"
    by (rule strict_sorted_buildNodes)
next
  fix nd
  assume nd: "nd \<in> set (buildNodes l sps pl ud)"
    and ex: "\<exists>s \<in> set sps. support_positionMm s = node_x nd"
  let ?P = "\<lambda>item. support_positionMm item = node_x nd"
  from ex obtain s where s: "find ?P sps = Some s"
    by (cases "find ?P sps") (auto simp: find_None_iff)
  then have "s \<in> set sps" "support_positionMm s = node_x nd"
    by (auto simp: find_Some_iff)
  moreover have "supportType nd = support_type s"
    using buildNodes_nodeAt [OF nd] s by (simp add: nodeAt_def) (metis Node.select_convs(2))
  ultimately show "\<exists>s \<in> set sps. support_positionMm s = node_x nd \<and> supportType nd = support_type s"
    by blast
next
  fix nd
  assume nd: "nd \<in> set (buildNodes l sps pl ud)"
    and no: "\<forall>s \<in> set sps. support_positionMm s \<noteq> node_x nd"
  then have "find (\<lambda>item. support_positionMm item = node_x nd) sps = None"
    by (simp add: find_None_iff)
  then show "supportType nd = Free"
    using buildNodes_nodeAt [OF nd] by (simp add: nodeAt_def) (metis Node.select_convs(2))
qed

lemma buildNodes_demo:
  "buildNodes 1 demoSupports [] [] =
     [\<lparr>node_x = 0, supportType = Pinned\<rparr>, \<lparr>node_x = 1, supportType = Free\<rparr>]"
  by (simp add: buildNodes_def basePositions_def uniqueSorted_def new_Set_def nodeAt_def demoSupports_def)

theorem buildNodes_mesh_witness:
  "\<lparr>node_x = 0, supportType = Pinned\<rparr> \<in> set (buildNodes 1 demoSupports [] [])
   \<and> (\<exists>s \<in> set demoSupports. support_positionMm s = 0)
   \<and> (\<exists>s \<in> set demoSupports. support_positionMm s = 0 \<and> Pinned = support_type s)
   \<and> \<lparr>node_x = 1, supportType = Free\<rparr> \<in> set (buildNodes 1 demoSupports [] [])
   \<and> map node_x (buildNodes 1 demoSupports [] []) = [0, 1]"
  using buildNodes_mesh [of 1 demoSupports "[]" "[]"]
  by (simp add: buildNodes_demo)

text \<open>
  Claim C8 says that among several support definitions at one mesh position the last
  one in input order decides the node's kind. With a pinned and then a fixed support at
  position 0 the node is pinned: the first definition decides.
\<close>

theorem buildNodes_last_support_counterexample:
  "length (filter (\<lambda>s. support_positionMm s = node_x (buildNodes 1 demoSupports [] [] ! 0)) demoSupports) \<ge> 2
   \<and> buildNodes 1 demoSupports [] [] ! 0 \<in> set (buildNodes 1 demoSupports [] [])
   \<and> supportType (buildNodes 1 demoSupports [] [] ! 0) = Pinned
   \<and> support_type (last (filter (\<lambda>s. support_positionMm s = node_x (buildNodes 1 demoSupports [] [] ! 0)) demoSupports)) = Fixed"
  by (simp add: buildNodes_demo) (simp add: demoSupports_def)

text \<open>
  Claim C8, amended: for every mesh node at which one or more support definitions sit,
  the node's kind is the kind of the first of them in input order.
\<close>

theorem buildNodes_first_support_wins:
  "nd \<in> set (buildNodes l sps pl ud) \<Longrightarrow>
   filter (\<lambda>s. support_positionMm s = node_x nd) sps = s # rest \<Longrightarrow>
   supportType nd = support_type s"
  using buildNodes_nodeAt [of nd l sps pl ud]
  by (simp add: nodeAt_def find_filter [of _ sps]) (metis Node.select_convs(2))

theorem buildNodes_first_support_wins_witness:
  "buildNodes 1 demoSupports [] [] ! 0 \<in> set (buildNodes 1 demoSupports [] [])
   \<and> filter (\<lambda>s. support_positionMm s = node_x (buildNodes 1 demoSupports [] [] ! 0)) demoSupports
       = demoSupports ! 0 # [demoSupports ! 1]
   \<and> supportType (buildNodes 1 demoSupports [] [] ! 0) = support_type (demoSupports ! 0)"
proof -
  have a: "buildNodes 1 demoSupports [] [] ! 0 \<in> set (buildNodes 1 demoSupports [] [])"
    by (simp add: buildNodes_demo)
  have b: "filter (\<lambda>s. support_positionMm s = node_x (buildNodes 1 demoSupports [] [] ! 0)) demoSupports
       = demoSupports ! 0 # [demoSupports ! 1]"
    by (simp add: buildNodes_demo) (simp add: demoSupports_def)
  from buildNodes_first_support_wins [OF a b] a b show ?thesis by blast
qed

lemma set_constrainedDofs:
  "set (constrainedDofs nodes) =
     {d. \<exists>i < length nodes. (supportType (nodes ! i) = Pinned \<and> d = 2 * i)
           \<or> (supportType (nodes ! i) = Fixed \<and> (d = 2 * i \<or> d = 2 * i + 1))}"
  unfolding constrainedDofs_def
  apply (rule set_eqI)
  apply (simp add: set_zip)
  apply (rule iffI)
   apply (elim exE conjE)
   apply (rename_tac nd j i)
   apply (rule_tac x = i in exI)
   apply (force split: if_splits simp: mult.commute)
  apply (elim exE conjE)
  apply (rename_tac i)
  apply (rule_tac x = "nodes ! i" in exI)
  apply (rule_tac x = i in exI)
  apply (force simp: mult.commute)
  done

lemma filter_upt_sorted_list_of_set:
  "filter P [0..<n] = sorted_list_of_set {i. i < n \<and> P i}"
proof -
  have "sorted_wrt (<) (filter P [0..<n])"
    by (simp add: sorted_wrt_filter)
  moreover have "set (filter P [0..<n]) = {i. i < n \<and> P i}"
    by auto
  ultimately show ?thesis
    by (metis (no_types, lifting) strict_sorted_equal List.finite_set sorted_list_of_set.strict_sorted_key_list_of_set sorted_list_of_set.set_sorted_key_list_of_set)
qed

lemma map_nth_upt_id: "length xs = n \<Longrightarrow> map (\<lambda>i. xs ! i) [0..<n] = xs"
  by (auto simp: list_eq_iff_nth_eq)

lemma applyBoundaryConditions_facts:
  assumes "applyBoundaryConditions nodes K F = (constrained, free, Kff, Ff)"
  shows "set constrained =
           {d. \<exists>i < length nodes. (supportType (nodes ! i) = Pinned \<and> d = 2 * i)
                 \<or> (supportType (nodes ! i) = Fixed \<and> (d = 2 * i \<or> d = 2 * i + 1))}"
    and "free = sorted_list_of_set ({d. d < length K} - set constrained)"
    and "length Kff = length free" and "length Ff = length free"
    and "\<forall>a < length free. length (Kff ! a) = length free \<and> Ff ! a = F ! (free ! a)
            \<and> (\<forall>b < length free. Kff ! a ! b = K ! (free ! a) ! (free ! b))"
    and "set constrained = {} \<and> length F = length K
            \<and> (\<forall>row \<in> set K. length row = length K) \<longrightarrow> Kff = K \<and> Ff = F"
proof -
  from assms have c: "constrained = constrainedDofs nodes"
    and f: "free = filter (\<lambda>i. i \<notin> set constrained) [0..<length K]"
    and k: "Kff = map (\<lambda>r. map (\<lambda>c. K ! r ! c) free) free"
    and ff: "Ff = map (\<lambda>r. F ! r) free"
    by (auto simp: applyBoundaryConditions_def Let_def)
  show "set constrained =
           {d. \<exists>i < length nodes. (supportType (nodes ! i) = Pinned \<and> d = 2 * i)
                 \<or> (supportType (nodes ! i) = Fixed \<and> (d = 2 * i \<or> d = 2 * i + 1))}"
    by (simp only: c set_constrainedDofs)
  have "{i. i < length K \<and> i \<notin> set constrained} = {d. d < length K} - set constrained"
    by auto
  then show "free = sorted_list_of_set ({d. d < length K} - set constrained)"
    by (simp add: f filter_upt_sorted_list_of_set)
  show "length Kff = length free" "length Ff = length free"
    by (simp_all add: k ff)
  show "\<forall>a < length free. length (Kff ! a) = length free \<and> Ff ! a = F ! (free ! a)
            \<and> (\<forall>b < length free. Kff ! a ! b = K ! (free ! a) ! (free ! b))"
    by (simp add: k ff)
  show "set constrained = {} \<and> length F = length K
            \<and> (\<forall>row \<in> set K. length row = length K) \<longrightarrow> Kff = K \<and> Ff = F"
  proof (intro impI, elim conjE)
    assume "set constrained = {}" and lf: "length F = length K"
      and sq: "\<forall>row \<in> set K. length row = length K"
    then have free_all: "free = [0..<length K]"
      by (simp add: f)
    have "Ff = F"
      by (simp add: ff free_all lf [symmetric] map_nth_upt_id)
    moreover have "Kff = K"
    proof -
      have "map (\<lambda>r. map (\<lambda>c. K ! r ! c) [0..<length K]) [0..<length K] = map (\<lambda>r. K ! r) [0..<length K]"
        using sq by (intro map_cong refl map_nth_upt_id) simp
      then show ?thesis
        by (simp add: k free_all map_nth_upt_id)
    qed
    ultimately show "Kff = K \<and> Ff = F" by simp
  qed
qed



text \<open>
  Claim C6. The constraint reducer constrains exactly DOF \<open>2i\<close> of every pinned node
  \<open>i\<close> and DOFs \<open>2i\<close> and \<open>2i + 1\<close> of every fixed node; the free list is the ascending
  complement of the constrained set within the DOFs of the global matrix; the reduced
  matrix and vector hold the entries of the global ones at the free indices, in that
  order; with no constrained DOF the reduced system is the (square) global system.
\<close>

theorem applyBoundaryConditions_reduces:
  "applyBoundaryConditions nodes K F = (constrained, free, Kff, Ff) \<Longrightarrow>
     set constrained =
           {d. \<exists>i < length nodes. (supportType (nodes ! i) = Pinned \<and> d = 2 * i)
                 \<or> (supportType (nodes ! i) = Fixed \<and> (d = 2 * i \<or> d = 2 * i + 1))}
     \<and> free = sorted_list_of_set ({d. d < length K} - set constrained)
     \<and> length Kff = length free \<and> length Ff = length free
     \<and> (\<forall>a < length free. length (Kff ! a) = length free \<and> Ff ! a = F ! (free ! a)
            \<and> (\<forall>b < length free. Kff ! a ! b = K ! (free ! a) ! (free ! b)))
     \<and> (set constrained = {} \<and> length F = length K
            \<and> (\<forall>row \<in> set K. length row = length K) \<longrightarrow> Kff = K \<and> Ff = F)"
  by (intro conjI applyBoundaryConditions_facts [of nodes K F constrained free Kff Ff])

lemma applyBoundaryConditions_demo:
  "applyBoundaryConditions demoNodes demoK demoF =
     ([0], [1, 2, 3], [[6, 7, 8], [10, 11, 12], [14, 15, 16]], [22, 23, 24])"
  by (simp add: applyBoundaryConditions_def constrainedDofs_def demoNodes_def demoK_def demoF_def upt_rec)

lemma applyBoundaryConditions_demo_free:
  "applyBoundaryConditions demoFreeNodes demoK demoF = ([], [0, 1, 2, 3], demoK, demoF)"
  by (simp add: applyBoundaryConditions_def constrainedDofs_def demoFreeNodes_def demoK_def demoF_def upt_rec)

theorem applyBoundaryConditions_reduces_witness:
  "applyBoundaryConditions demoNodes demoK demoF =
     ([0], [1, 2, 3], [[6, 7, 8], [10, 11, 12], [14, 15, 16]], [22, 23, 24])
   \<and> [1, 2, 3] = sorted_list_of_set ({d. d < length demoK} - set [0 :: nat])
   \<and> applyBoundaryConditions demoFreeNodes demoK demoF = ([], [0, 1, 2, 3], demoK, demoF)
   \<and> set ([] :: nat list) = {} \<and> length demoF = length demoK
   \<and> list_all (\<lambda>row. length row = length demoK) demoK"
proof -
  have "[1, 2, 3] = sorted_list_of_set ({d. d < length demoK} - set [0 :: nat])"
    by (rule applyBoundaryConditions_reduces [OF applyBoundaryConditions_demo, THEN conjunct2, THEN conjunct1])
  moreover have "length demoF = length demoK" "list_all (\<lambda>row. length row = length demoK) demoK"
    by (simp_all add: demoK_def demoF_def)
  ultimately show ?thesis
    by (simp only: applyBoundaryConditions_demo applyBoundaryConditions_demo_free) simp
qed

declare solveFrom.simps [simp del]

lemma fold_invariant:
  "P s \<Longrightarrow> (\<And>x s. x \<in> set xs \<Longrightarrow> P s \<Longrightarrow> P (f x s)) \<Longrightarrow> P (fold f xs s)"
  by (induction xs arbitrary: s) auto

lemma map_length_update_row:
  "map length (K[a := (K ! a)[b := v]]) = map length K"
  by (cases "a < length K") (simp_all add: map_update list_update_same_conv list_update_beyond)

lemma map_length_scatterK: "map length (scatterK dm kl r K) = map length K"
  unfolding scatterK_def
  by (rule fold_invariant [where P = "\<lambda>K'. map length K' = map length K"])
     (simp_all add: map_length_update_row)

lemma scatter_shape:
  "scatter dm kl ff (K, F) = (K', F') \<Longrightarrow> map length K' = map length K \<and> length F' = length F"
proof -
  have "case fold (\<lambda>r (K, F). (scatterK dm kl r K, F[dm ! r := F ! (dm ! r) + ff ! r])) [0..<4] (K, F)
        of (K', F') \<Rightarrow> map length K' = map length K \<and> length F' = length F"
    by (rule fold_invariant) (auto simp: map_length_scatterK)
  then show "scatter dm kl ff (K, F) = (K', F') \<Longrightarrow> map length K' = map length K \<and> length F' = length F"
    by (simp add: scatter_def)
qed

lemma assembleElement_shape:
  "assembleElement EI udls nodes i (K, F, els) = (K', F', els') \<Longrightarrow>
   map length K' = map length K \<and> length F' = length F"
  by (auto simp: assembleElement_def Let_def split: if_splits prod.splits dest: scatter_shape)

lemma length_mapLoadsToNodes: "length (mapLoadsToNodes nodes pls) = length nodes"
proof -
  have "\<And>acc. length (foldl (\<lambda>nodeLoads load.
        (case findIndex (\<lambda>node. node_x node = load_positionMm load) nodes of
           Some index \<Rightarrow> nodeLoads[index := nodeLoads ! index + - magnitudeKn load * 1000]
         | None \<Rightarrow> nodeLoads)) acc pls) = length acc"
    by (induction pls) (auto split: option.splits)
  then show ?thesis by (simp add: mapLoadsToNodes_def)
qed

lemma length_initialF: "length (initialF nodes pls) = length nodes * 2"
  unfolding initialF_def Let_def
  by (rule fold_invariant [where P = "\<lambda>F. length F = length nodes * 2"]) simp_all

lemma assembleSystem_shape:
  assumes "assembleSystem nodes E I pls udls = (K, F, els)"
  shows "map length K = replicate (length nodes * 2) (length nodes * 2)"
    and "length F = length nodes * 2"
proof -
  let ?n = "length nodes * 2"
  have "case fold (assembleElement (E * I) udls nodes) [0..<length nodes - 1]
             (replicate ?n (replicate ?n 0), initialF nodes pls, [])
        of (K, F, els) \<Rightarrow> map length K = replicate ?n ?n \<and> length F = ?n"
    by (rule fold_invariant) (auto simp: length_initialF dest!: assembleElement_shape)
  with assms show "map length K = replicate ?n ?n" "length F = ?n"
    by (simp_all add: assembleSystem_def Let_def)
qed

lemma assembleSystem_square:
  assumes "assembleSystem nodes E I pls udls = (K, F, els)"
  shows "length K = length nodes * 2" and "\<forall>row \<in> set K. length row = length nodes * 2"
proof -
  from assembleSystem_shape(1) [OF assms]
  have m: "map length K = replicate (length nodes * 2) (length nodes * 2)" .
  from arg_cong [OF m, of length] show "length K = length nodes * 2" by simp
  from arg_cong [OF m, of set] show "\<forall>row \<in> set K. length row = length nodes * 2"
    by (auto split: if_splits)
qed

lemma rowTimes_sum: "rowTimes row u = (\<Sum>j<length row. row ! j * u ! j)"
proof (induction row rule: rev_induct)
  case Nil
  show ?case by (simp add: rowTimes_def)
next
  case (snoc v row)
  have "rowTimes (row @ [v]) u = rowTimes row u + v * u ! length row"
    by (simp add: rowTimes_def)
  also have "\<dots> = (\<Sum>j<length row. (row @ [v]) ! j * u ! j) + v * u ! length row"
    by (simp add: snoc.IH nth_append)
  finally show ?case by simp
qed

lemma rowTimes_zero:
  assumes "length row \<le> m"
  shows "rowTimes row (replicate m 0) = 0"
proof -
  have "(\<Sum>j<length row. row ! j * replicate m (0::real) ! j) = (\<Sum>j<length row. 0)"
    using assms by (intro sum.cong refl) simp
  then show ?thesis
    by (simp only: rowTimes_sum sum.neutral_const)
qed

lemma reactionsOf_zero:
  assumes "length F = length K" and "\<forall>row \<in> set K. length row \<le> m"
  shows "reactionsOf K F (replicate m 0) = map uminus F"
proof (rule nth_equalityI)
  show "length (reactionsOf K F (replicate m 0)) = length (map uminus F)"
    using assms by (simp add: reactionsOf_def)
next
  fix i assume "i < length (reactionsOf K F (replicate m 0))"
  then have i: "i < length K" by (simp add: reactionsOf_def)
  then have "rowTimes (K ! i) (replicate m 0) = 0"
    using assms by (intro rowTimes_zero) simp
  with i show "reactionsOf K F (replicate m 0) ! i = map uminus F ! i"
    using assms by (simp add: reactionsOf_def)
qed

lemma solveLinearSystem_empty: "solveLinearSystem [] [] = Some []"
  by (simp add: solveLinearSystem_def solveFrom.simps)

text \<open>
  Claim C10. When the mesh constrains every DOF, the free-DOF list is empty, the solver
  runs on the 0x0 system and returns the empty vector, and the analysis succeeds with all
  displacements zero and every reaction equal to the negated load entry of its DOF.
\<close>

theorem analysis_fully_constrained:
  assumes all: "\<forall>d < 2 * length (buildNodes l sps pl ud). d \<in> set (constrainedDofs (buildNodes l sps pl ud))"
    and asm: "assembleSystem (buildNodes l sps pl ud) E (inertiaOf w d) pl ud = (K, F, els)"
    and bc: "applyBoundaryConditions (buildNodes l sps pl ud) K F = (constrained, free, Kff, Ff)"
  shows "free = [] \<and> Kff = [] \<and> Ff = [] \<and> solveLinearSystem Kff Ff = Some []
    \<and> expandDisplacements (length K) free [] = replicate (length K) 0
    \<and> reactionsOf K F (replicate (length K) 0) = map uminus F
    \<and> analysis l w d E sps pl ud =
        AnalysisResult (buildNodes l sps pl ud)
          (reactionTableOf (buildNodes l sps pl ud) (map uminus F))
          (computeDiagrams (buildNodes l sps pl ud) els (replicate (length K) 0))"
proof -
  let ?nodes = "buildNodes l sps pl ud"
  note sq = assembleSystem_square [OF asm] and lf = assembleSystem_shape(2) [OF asm]
  from bc have c: "constrained = constrainedDofs ?nodes"
    and f: "free = filter (\<lambda>i. i \<notin> set constrained) [0..<length K]"
    and k: "Kff = map (\<lambda>r. map (\<lambda>c. K ! r ! c) free) free"
    and ff: "Ff = map (\<lambda>r. F ! r) free"
    by (auto simp: applyBoundaryConditions_def Let_def)
  have free: "free = []"
    using all by (simp add: f c sq(1) filter_empty_conv mult.commute)
  then have kf: "Kff = []" "Ff = []"
    by (simp_all add: k ff)
  have d0: "expandDisplacements (length K) free [] = replicate (length K) 0"
    by (simp add: free expandDisplacements_def)
  have r0: "reactionsOf K F (replicate (length K) 0) = map uminus F"
    using sq lf by (intro reactionsOf_zero) simp_all
  have "analysis l w d E sps pl ud =
        AnalysisResult ?nodes (reactionTableOf ?nodes (map uminus F))
          (computeDiagrams ?nodes els (replicate (length K) 0))"
    using d0 r0 by (simp add: analysis_def Let_def asm bc kf solveLinearSystem_empty free)
  with free kf d0 r0 show ?thesis
    by (simp add: solveLinearSystem_empty)
qed

lemma buildNodes_demoFixed:
  "buildNodes 1 demoFixedSupports demoTipLoad [] =
     [\<lparr>node_x = 0, supportType = Fixed\<rparr>, \<lparr>node_x = 1, supportType = Fixed\<rparr>]"
  by (simp add: buildNodes_def basePositions_def uniqueSorted_def new_Set_def nodeAt_def
      demoFixedSupports_def demoTipLoad_def)

lemma constrainedDofs_demoFixed:
  "constrainedDofs (buildNodes 1 demoFixedSupports demoTipLoad []) = [0, 1, 2, 3]"
  by (simp add: buildNodes_demoFixed constrainedDofs_def upt_rec)

theorem analysis_fully_constrained_witness:
  "constrainedDofs (buildNodes 1 demoFixedSupports demoTipLoad []) = [0, 1, 2, 3]
   \<and> length (buildNodes 1 demoFixedSupports demoTipLoad []) = 2
   \<and> (\<exists>K F els. assembleSystem (buildNodes 1 demoFixedSupports demoTipLoad []) 1 (inertiaOf 12 1) demoTipLoad []
          = (K, F, els)
        \<and> reactionsOf K F (replicate (length K) 0) = map uminus F
        \<and> analysis 1 12 1 1 demoFixedSupports demoTipLoad [] =
            AnalysisResult (buildNodes 1 demoFixedSupports demoTipLoad [])
              (reactionTableOf (buildNodes 1 demoFixedSupports demoTipLoad []) (map uminus F))
              (computeDiagrams (buildNodes 1 demoFixedSupports demoTipLoad []) els (replicate (length K) 0)))"
proof -
  let ?nodes = "buildNodes 1 demoFixedSupports demoTipLoad []"
  obtain K F els where asm: "assembleSystem ?nodes 1 (inertiaOf 12 1) demoTipLoad [] = (K, F, els)"
    by (cases "assembleSystem ?nodes 1 (inertiaOf 12 1) demoTipLoad []") auto
  obtain c f Kff Ff where bc: "applyBoundaryConditions ?nodes K F = (c, f, Kff, Ff)"
    by (cases "applyBoundaryConditions ?nodes K F") auto
  have len: "length ?nodes = 2"
    by (simp add: buildNodes_demoFixed)
  have all: "\<forall>d < 2 * length ?nodes. d \<in> set (constrainedDofs ?nodes)"
    unfolding constrainedDofs_demoFixed len by auto
  from analysis_fully_constrained [OF all asm bc] asm len constrainedDofs_demoFixed
  show ?thesis by blast
qed

section \<open>Properties of the linear solver: the pivot test\<close>

lemma findMaxRow_props:
  "k < n \<Longrightarrow> k \<le> findMaxRow M k n \<and> findMaxRow M k n < n
     \<and> (\<forall>i. k \<le> i \<and> i < n \<longrightarrow> \<bar>M ! i ! k\<bar> \<le> \<bar>M ! (findMaxRow M k n) ! k\<bar>)"
proof (induction n)
  case 0
  then show ?case by simp
next
  case (Suc n)
  show ?case
  proof (cases "k = n")
    case True
    then show ?thesis by (auto simp: findMaxRow_def le_less_Suc_eq)
  next
    case False
    with Suc.prems have kn: "k < n" by simp
    have step: "findMaxRow M k (Suc n) =
        (if \<bar>M ! n ! k\<bar> > \<bar>M ! (findMaxRow M k n) ! k\<bar> then n else findMaxRow M k n)"
      using kn by (simp add: findMaxRow_def)
    from Suc.IH [OF kn] show ?thesis
      unfolding step by (auto simp: less_Suc_eq)
  qed
qed

lemma columnMax_findMaxRow:
  assumes "k < n"
  shows "columnMax M k n = \<bar>M ! (findMaxRow M k n) ! k\<bar>"
  unfolding columnMax_def
proof (rule Max_eqI)
  show "finite ((\<lambda>i. \<bar>M ! i ! k\<bar>) ` {k..<n})" by simp
  show "\<And>y. y \<in> (\<lambda>i. \<bar>M ! i ! k\<bar>) ` {k..<n} \<Longrightarrow> y \<le> \<bar>M ! (findMaxRow M k n) ! k\<bar>"
    using findMaxRow_props [OF assms, of M] by auto
  show "\<bar>M ! (findMaxRow M k n) ! k\<bar> \<in> (\<lambda>i. \<bar>M ! i ! k\<bar>) ` {k..<n}"
    using findMaxRow_props [OF assms, of M] by auto
qed

lemma pivotTooSmall_iff:
  "k < n \<Longrightarrow> pivotTooSmall n k Mx = (columnMax (fst Mx) k n < 1 / 1000000000)"
  by (cases Mx) (simp add: pivotTooSmall_def columnMax_findMaxRow)

lemma solveFrom_None_iff:
  "solveFrom n k st = None \<longleftrightarrow>
     (\<exists>j. k \<le> j \<and> j < n \<and> pivotTooSmall n j (fold (pivotStep n) [k..<j] st))"
proof (induction n k st rule: solveFrom.induct)
  case (1 n k Mx)
  show ?case
  proof (cases "k < n")
    case False
    then show ?thesis by (simp add: solveFrom.simps [of n k])
  next
    case kn: True
    show ?thesis
    proof (cases "pivotTooSmall n k Mx")
      case True
      then have "solveFrom n k Mx = None"
        using kn by (simp add: solveFrom.simps [of n k])
      moreover have "\<exists>j. k \<le> j \<and> j < n \<and> pivotTooSmall n j (fold (pivotStep n) [k..<j] Mx)"
        using True kn by (intro exI [of _ k]) simp
      ultimately show ?thesis by simp
    next
      case False
      have unfold: "\<And>j. k < j \<Longrightarrow>
          fold (pivotStep n) [k..<j] Mx = fold (pivotStep n) [k + 1..<j] (pivotStep n k Mx)"
        by (simp add: upt_conv_Cons)
      have "solveFrom n k Mx = None \<longleftrightarrow> solveFrom n (k + 1) (pivotStep n k Mx) = None"
        using kn False by (simp add: solveFrom.simps [of n k])
      also have "\<dots> \<longleftrightarrow> (\<exists>j. k + 1 \<le> j \<and> j < n
            \<and> pivotTooSmall n j (fold (pivotStep n) [k + 1..<j] (pivotStep n k Mx)))"
        using "1.IH" [OF kn False] .
      also have "\<dots> \<longleftrightarrow> (\<exists>j. k \<le> j \<and> j < n \<and> pivotTooSmall n j (fold (pivotStep n) [k..<j] Mx))"
      proof (intro iffI; elim exE conjE)
        fix j assume "k + 1 \<le> j" "j < n"
          "pivotTooSmall n j (fold (pivotStep n) [k + 1..<j] (pivotStep n k Mx))"
        then show "\<exists>j. k \<le> j \<and> j < n \<and> pivotTooSmall n j (fold (pivotStep n) [k..<j] Mx)"
          using unfold [of j] by (intro exI [of _ j]) simp
      next
        fix j assume j: "k \<le> j" "j < n" "pivotTooSmall n j (fold (pivotStep n) [k..<j] Mx)"
        with False have "k \<noteq> j" by auto
        with j have "k + 1 \<le> j" by simp
        with j show "\<exists>j. k + 1 \<le> j \<and> j < n
            \<and> pivotTooSmall n j (fold (pivotStep n) [k + 1..<j] (pivotStep n k Mx))"
          using unfold [of j] by (intro exI [of _ j]) simp
      qed
      finally show ?thesis .
    qed
  qed
qed

lemma solveLinearSystem_None_iff:
  "solveLinearSystem A b = None \<longleftrightarrow>
     (\<exists>k < length b. columnMax (fst (eliminationState (length b) A b k)) k (length b) < 1 / 1000000000)"
  by (auto simp: solveLinearSystem_def solveFrom_None_iff eliminationState_def pivotTooSmall_iff)

lemma solveFrom_stops:
  "k < n \<Longrightarrow> columnMax (fst st) k n < 1 / 1000000000 \<Longrightarrow> solveFrom n k st = None"
  by (simp add: solveFrom.simps [of n k] pivotTooSmall_iff)

lemma analysis_error_iff:
  assumes "assembleSystem (buildNodes l sps pl ud) E (inertiaOf w d) pl ud = (K, F, els)"
    and "applyBoundaryConditions (buildNodes l sps pl ud) K F = (c, f, Kff, Ff)"
  shows "analysis l w d E sps pl ud = AnalysisError m \<longleftrightarrow>
           solveLinearSystem Kff Ff = None \<and> m = unstableMessage"
  using assms by (auto simp: analysis_def Let_def split: option.splits)

text \<open>
  Claim C2. The solver returns the failure signal exactly when, at some pass \<open>k\<close> of
  the elimination, the largest absolute value in column \<open>k\<close> among the rows from \<open>k\<close> on is
  below \<open>1e-9\<close>; from such a state it returns at once, without another elimination pass;
  and the analysis reports an error exactly when the solver fails, always with the one
  fixed message.
\<close>

theorem solver_failure_signal:
  "(solveLinearSystem A b = None \<longleftrightarrow>
      (\<exists>k < length b. columnMax (fst (eliminationState (length b) A b k)) k (length b) < 1 / 1000000000))
   \<and> (\<forall>k < length b. columnMax (fst (eliminationState (length b) A b k)) k (length b) < 1 / 1000000000
         \<longrightarrow> solveFrom (length b) k (eliminationState (length b) A b k) = None)
   \<and> (assembleSystem (buildNodes l sps pl ud) E (inertiaOf w d) pl ud = (K, F, els)
        \<and> applyBoundaryConditions (buildNodes l sps pl ud) K F = (c, f, Kff, Ff) \<longrightarrow>
        (analysis l w d E sps pl ud = AnalysisError m \<longleftrightarrow>
           solveLinearSystem Kff Ff = None
           \<and> m = ''The system is unstable. Add or adjust supports so at least one vertical and one rotational restraint exists.''))"
proof (intro conjI allI impI)
  show "solveLinearSystem A b = None \<longleftrightarrow>
      (\<exists>k < length b. columnMax (fst (eliminationState (length b) A b k)) k (length b) < 1 / 1000000000)"
    by (rule solveLinearSystem_None_iff)
next
  fix k assume "k < length b"
    "columnMax (fst (eliminationState (length b) A b k)) k (length b) < 1 / 1000000000"
  then show "solveFrom (length b) k (eliminationState (length b) A b k) = None"
    by (rule solveFrom_stops)
next
  assume "assembleSystem (buildNodes l sps pl ud) E (inertiaOf w d) pl ud = (K, F, els)
        \<and> applyBoundaryConditions (buildNodes l sps pl ud) K F = (c, f, Kff, Ff)"
  then show "analysis l w d E sps pl ud = AnalysisError m \<longleftrightarrow>
           solveLinearSystem Kff Ff = None
           \<and> m = ''The system is unstable. Add or adjust supports so at least one vertical and one rotational restraint exists.''"
    using analysis_error_iff [of l sps pl ud E w d K F els c f Kff Ff m]
    by (simp add: unstableMessage_def)
qed

lemma buildNodes_demoPinned:
  "buildNodes 0 demoPinnedSupport [] [] = [\<lparr>node_x = 0, supportType = Pinned\<rparr>]"
  by (simp add: buildNodes_def basePositions_def uniqueSorted_def new_Set_def nodeAt_def
      demoPinnedSupport_def)

lemma assembleSystem_demoPinned:
  "assembleSystem (buildNodes 0 demoPinnedSupport [] []) 1 (inertiaOf 12 1) [] []
     = ([[0, 0], [0, 0]], [0, 0], [])"
  by (simp add: buildNodes_demoPinned assembleSystem_def initialF_def mapLoadsToNodes_def
      numeral_eq_Suc)

lemma applyBoundaryConditions_demoPinned:
  "applyBoundaryConditions (buildNodes 0 demoPinnedSupport [] []) [[0, 0], [0, 0]] [0, 0]
     = ([0], [1], [[0]], [0])"
  by (simp add: buildNodes_demoPinned applyBoundaryConditions_def constrainedDofs_def upt_rec)

lemma columnMax_demo: "columnMax (fst (eliminationState 1 [[0]] [0] 0)) 0 1 < 1 / 1000000000"
  by (simp add: columnMax_def eliminationState_def)

theorem solver_failure_signal_witness:
  "columnMax (fst (eliminationState (length [0 :: real]) [[0]] [0] 0)) 0 (length [0 :: real]) < 1 / 1000000000
   \<and> solveLinearSystem [[0]] [0] = None
   \<and> solveFrom (length [0 :: real]) 0 (eliminationState (length [0 :: real]) [[0]] [0] 0) = None
   \<and> assembleSystem (buildNodes 0 demoPinnedSupport [] []) 1 (inertiaOf 12 1) [] []
        = ([[0, 0], [0, 0]], [0, 0], [])
   \<and> applyBoundaryConditions (buildNodes 0 demoPinnedSupport [] []) [[0, 0], [0, 0]] [0, 0]
        = ([0], [1], [[0]], [0])
   \<and> analysis 0 12 1 1 demoPinnedSupport [] [] =
        AnalysisError ''The system is unstable. Add or adjust supports so at least one vertical and one rotational restraint exists.''"
proof -
  note inst = solver_failure_signal [of "[[0]]" "[0]" 0 demoPinnedSupport "[]" "[]" 1 12 1
      "[[0, 0], [0, 0]]" "[0, 0]" "[]" "[0]" "[1]" "[[0]]" "[0]"
      "''The system is unstable. Add or adjust supports so at least one vertical and one rotational restraint exists.''"]
  have cm: "columnMax (fst (eliminationState (length [0 :: real]) [[0]] [0] 0)) 0 (length [0 :: real]) < 1 / 1000000000"
    using columnMax_demo by simp
  have none: "solveLinearSystem [[0]] [0] = None"
    using inst [THEN conjunct1] cm by auto
  have stop: "solveFrom (length [0 :: real]) 0 (eliminationState (length [0 :: real]) [[0]] [0] 0) = None"
    using inst [THEN conjunct2, THEN conjunct1] cm by auto
  have "analysis 0 12 1 1 demoPinnedSupport [] [] =
        AnalysisError ''The system is unstable. Add or adjust supports so at least one vertical and one rotational restraint exists.''"
    using inst [THEN conjunct2, THEN conjunct2] none
      assembleSystem_demoPinned applyBoundaryConditions_demoPinned by blast
  with cm none stop assembleSystem_demoPinned applyBoundaryConditions_demoPinned
  show ?thesis by blast
qed

section \<open>Properties of the element assembler\<close>

lemma fold_pair_split:
  "fold (\<lambda>r (K, F). (g r K, h r F)) rs (K, F) = (fold g rs K, fold h rs F)"
  by (induction rs arbitrary: K F) auto

lemma length_fold_add_at:
  "length (fold (\<lambda>r F. F[g r := F ! (g r) + v r]) rs F) = length F"
  by (induction rs arbitrary: F) auto

lemma nth_fold_add_at:
  fixes F :: "real list"
  shows "a < length F \<Longrightarrow>
    fold (\<lambda>r F. F[g r := F ! (g r) + v r]) rs F ! a
      = F ! a + (\<Sum>r\<leftarrow>rs. if g r = a then v r else 0)"
proof (induction rs arbitrary: F)
  case Nil
  show ?case by simp
next
  case (Cons r rs)
  have "fold (\<lambda>r F. F[g r := F ! (g r) + v r]) (r # rs) F ! a
      = (F[g r := F ! (g r) + v r]) ! a + (\<Sum>r\<leftarrow>rs. if g r = a then v r else 0)"
    using Cons.prems by (simp add: Cons.IH)
  also have "(F[g r := F ! (g r) + v r]) ! a = F ! a + (if g r = a then v r else 0)"
    using Cons.prems by (simp add: nth_list_update)
  finally show ?case by simp
qed

lemma shape_fold_add_row:
  "map length (fold (\<lambda>c K. K[i := (K ! i)[g c := K ! i ! (g c) + v c]]) cs K) = map length K"
  by (rule fold_invariant [where P = "\<lambda>K'. map length K' = map length K"])
     (simp_all add: map_length_update_row)

lemma nth_fold_add_row:
  fixes K :: "real list list"
  shows "a < length K \<Longrightarrow> b < length (K ! a) \<Longrightarrow>
    fold (\<lambda>c K. K[i := (K ! i)[g c := K ! i ! (g c) + v c]]) cs K ! a ! b
      = K ! a ! b + (if i = a then (\<Sum>c\<leftarrow>cs. if g c = b then v c else 0) else 0)"
proof (induction cs arbitrary: K)
  case Nil
  show ?case by simp
next
  case (Cons c cs)
  let ?K' = "K[i := (K ! i)[g c := K ! i ! (g c) + v c]]"
  have len: "a < length ?K'" "b < length (?K' ! a)"
    using Cons.prems by (cases "i = a"; simp add: nth_list_update)+
  have "?K' ! a ! b = K ! a ! b + (if i = a then (if g c = b then v c else 0) else 0)"
    using Cons.prems by (simp add: nth_list_update)
  then show ?case
    using Cons.IH [OF len] by simp
qed

lemma foldl_add_sum_list:
  fixes a :: real
  shows "foldl (\<lambda>sum u. sum + f u) a us = a + (\<Sum>u\<leftarrow>us. f u)"
  by (induction us arbitrary: a) auto

lemma getElementUdl_sum:
  "getElementUdl udls x1 x2 =
     (\<Sum>u\<leftarrow>udls. if startMm u \<le> (x1 + x2) / 2 \<and> (x1 + x2) / 2 \<le> endMm u then magnitudeKnPerM u else 0)"
  by (simp add: getElementUdl_def Let_def foldl_add_sum_list sum_list_map_filter')

lemma mkElement_spec: "mkElement EI udls nodes i = specElement EI udls nodes i"
  by (simp add: mkElement_def specElement_def Let_def getElementUdl_sum kLocalOf_def fFixedOf_def
      power2_eq_square power3_eq_cube)

lemma el_index_mkElement [simp]: "el_index (mkElement EI udls nodes i) = i"
  by (simp add: mkElement_def Let_def)

lemma scatterK_nth:
  "a < length K \<Longrightarrow> b < length (K ! a) \<Longrightarrow>
   scatterK dm kl r K ! a ! b
     = K ! a ! b + (if dm ! r = a then (\<Sum>c\<leftarrow>[0..<4]. if dm ! c = b then kl ! r ! c else 0) else 0)"
  unfolding scatterK_def
  by (rule nth_fold_add_row [where g = "\<lambda>c. dm ! c" and v = "\<lambda>c. kl ! r ! c"])

lemma fold_scatterK_nth:
  "a < length K \<Longrightarrow> b < length (K ! a) \<Longrightarrow>
   fold (scatterK dm kl) rs K ! a ! b
     = K ! a ! b + (\<Sum>r\<leftarrow>rs. if dm ! r = a then (\<Sum>c\<leftarrow>[0..<4]. if dm ! c = b then kl ! r ! c else 0) else 0)"
proof (induction rs arbitrary: K)
  case Nil
  show ?case by simp
next
  case (Cons r rs)
  let ?K' = "scatterK dm kl r K"
  have m: "map length ?K' = map length K" by (rule map_length_scatterK)
  have la: "a < length ?K'" using arg_cong [OF m, of length] Cons.prems by simp
  have "length (?K' ! a) = length (K ! a)"
    using arg_cong [OF m, of "\<lambda>xs. xs ! a"] la Cons.prems by simp
  then have lb: "b < length (?K' ! a)" using Cons.prems by simp
  show ?case
    using Cons.IH [OF la lb] scatterK_nth [OF Cons.prems, of dm kl r] by simp
qed

lemma scatter_nth:
  assumes "scatter dm kl ff (K, F) = (K', F')"
  shows "a < length K \<Longrightarrow> b < length (K ! a) \<Longrightarrow>
           K' ! a ! b = K ! a ! b
             + (\<Sum>r\<leftarrow>[0..<4]. if dm ! r = a then (\<Sum>c\<leftarrow>[0..<4]. if dm ! c = b then kl ! r ! c else 0) else 0)"
    and "a < length F \<Longrightarrow> F' ! a = F ! a + (\<Sum>r\<leftarrow>[0..<4]. if dm ! r = a then ff ! r else 0)"
proof -
  from assms have K': "K' = fold (scatterK dm kl) [0..<4] K"
    and F': "F' = fold (\<lambda>r F. F[dm ! r := F ! (dm ! r) + ff ! r]) [0..<4] F"
    by (simp_all add: scatter_def fold_pair_split)
  show "a < length K \<Longrightarrow> b < length (K ! a) \<Longrightarrow>
           K' ! a ! b = K ! a ! b
             + (\<Sum>r\<leftarrow>[0..<4]. if dm ! r = a then (\<Sum>c\<leftarrow>[0..<4]. if dm ! c = b then kl ! r ! c else 0) else 0)"
    unfolding K' by (rule fold_scatterK_nth)
  show "a < length F \<Longrightarrow> F' ! a = F ! a + (\<Sum>r\<leftarrow>[0..<4]. if dm ! r = a then ff ! r else 0)"
    unfolding F' by (rule nth_fold_add_at [where g = "\<lambda>r. dm ! r" and v = "\<lambda>r. ff ! r"])
qed

lemma elementK_alt:
  "elementK e a b =
     (\<Sum>r\<leftarrow>[0..<4]. if dofMapOf (el_index e) ! r = a
        then (\<Sum>c\<leftarrow>[0..<4]. if dofMapOf (el_index e) ! c = b then el_kLocal e ! r ! c else 0) else 0)"
  unfolding elementK_def
  by (intro arg_cong [where f = sum_list] map_cong refl) simp

lemma assembleElement_cases:
  "assembleElement EI udls nodes i (K, F, els) =
     (if node_x (nodes ! (i + 1)) - node_x (nodes ! i) \<le> 0 then (K, F, els)
      else (fst (scatter (dofMapOf i) (el_kLocal (mkElement EI udls nodes i))
                   (el_fFixed (mkElement EI udls nodes i)) (K, F)),
            snd (scatter (dofMapOf i) (el_kLocal (mkElement EI udls nodes i))
                   (el_fFixed (mkElement EI udls nodes i)) (K, F)),
            els @ [mkElement EI udls nodes i]))"
  by (simp add: assembleElement_def Let_def split: prod.splits)

lemma assembleElement_nth:
  assumes step: "assembleElement EI udls nodes i (K, F, els) = (K', F', els')"
    and pos: "0 < node_x (nodes ! (i + 1)) - node_x (nodes ! i)"
  shows "els' = els @ [mkElement EI udls nodes i]"
    and "a < length K \<Longrightarrow> b < length (K ! a) \<Longrightarrow>
           K' ! a ! b = K ! a ! b + elementK (mkElement EI udls nodes i) a b"
    and "a < length F \<Longrightarrow> F' ! a = F ! a + elementF (mkElement EI udls nodes i) a"
proof -
  let ?e = "mkElement EI udls nodes i"
  from step pos have sc: "scatter (dofMapOf i) (el_kLocal ?e) (el_fFixed ?e) (K, F) = (K', F')"
    and els': "els' = els @ [?e]"
    by (simp_all add: assembleElement_cases prod_eq_iff)
  show "els' = els @ [?e]" by (rule els')
  show "a < length K \<Longrightarrow> b < length (K ! a) \<Longrightarrow> K' ! a ! b = K ! a ! b + elementK ?e a b"
    using scatter_nth(1) [OF sc, of a b] by (simp add: elementK_alt cong: if_cong)
  show "a < length F \<Longrightarrow> F' ! a = F ! a + elementF ?e a"
    using scatter_nth(2) [OF sc, of a] by (simp add: elementF_def)
qed

lemma assemble_fold:
  assumes "fold (assembleElement EI udls nodes) [0..<m] (K0, F0, []) = (K, F, els)"
  shows "els = map (mkElement EI udls nodes)
                 (filter (\<lambda>i. 0 < node_x (nodes ! (i + 1)) - node_x (nodes ! i)) [0..<m])
       \<and> map length K = map length K0 \<and> length F = length F0
       \<and> (\<forall>a < length K0. \<forall>b < length (K0 ! a). K ! a ! b = K0 ! a ! b + (\<Sum>e\<leftarrow>els. elementK e a b))
       \<and> (\<forall>a < length F0. F ! a = F0 ! a + (\<Sum>e\<leftarrow>els. elementF e a))"
  using assms
proof (induction m arbitrary: K F els)
  case 0
  then show ?case by simp
next
  case (Suc m)
  obtain K1 F1 els1 where prev: "fold (assembleElement EI udls nodes) [0..<m] (K0, F0, []) = (K1, F1, els1)"
    by (cases "fold (assembleElement EI udls nodes) [0..<m] (K0, F0, [])") auto
  note ih = Suc.IH [OF prev]
  from Suc.prems prev have step: "assembleElement EI udls nodes m (K1, F1, els1) = (K, F, els)"
    by simp
  from ih have mK: "map length K1 = map length K0" by simp
  have lK: "length K1 = length K0" using mK by (rule map_eq_imp_length_eq)
  have lrow: "\<And>a. a < length K0 \<Longrightarrow> length (K1 ! a) = length (K0 ! a)"
    using mK lK by (metis nth_map)
  show ?case
  proof (cases "0 < node_x (nodes ! (m + 1)) - node_x (nodes ! m)")
    case False
    with step have "K = K1" "F = F1" "els = els1"
      by (simp_all add: assembleElement_cases)
    with ih False show ?thesis by simp
  next
    case True
    note r = assembleElement_nth [OF step True]
    have shape: "map length K = map length K1 \<and> length F = length F1"
      using assembleElement_shape [OF step] .
    have "els = map (mkElement EI udls nodes)
                 (filter (\<lambda>i. 0 < node_x (nodes ! (i + 1)) - node_x (nodes ! i)) [0..<Suc m])"
      using r(1) ih True by simp
    moreover have "\<forall>a < length K0. \<forall>b < length (K0 ! a).
        K ! a ! b = K0 ! a ! b + (\<Sum>e\<leftarrow>els. elementK e a b)"
    proof (intro allI impI)
      fix a b assume a: "a < length K0" and b: "b < length (K0 ! a)"
      have "K ! a ! b = K1 ! a ! b + elementK (mkElement EI udls nodes m) a b"
        using r(2) [of a b] a b lK lrow by simp
      also have "K1 ! a ! b = K0 ! a ! b + (\<Sum>e\<leftarrow>els1. elementK e a b)"
        using ih a b by simp
      finally show "K ! a ! b = K0 ! a ! b + (\<Sum>e\<leftarrow>els. elementK e a b)"
        by (simp add: r(1))
    qed
    moreover have "\<forall>a < length F0. F ! a = F0 ! a + (\<Sum>e\<leftarrow>els. elementF e a)"
    proof (intro allI impI)
      fix a assume a: "a < length F0"
      have "F ! a = F1 ! a + elementF (mkElement EI udls nodes m) a"
        using r(3) [of a] a ih by simp
      also have "F1 ! a = F0 ! a + (\<Sum>e\<leftarrow>els1. elementF e a)"
        using ih a by simp
      finally show "F ! a = F0 ! a + (\<Sum>e\<leftarrow>els. elementF e a)"
        by (simp add: r(1))
    qed
    ultimately show ?thesis
      using shape ih by simp
  qed
qed

lemma nth_foldl_loads:
  fixes acc :: "real list"
  shows "i < length acc \<Longrightarrow>
    foldl (\<lambda>nodeLoads load.
        (case idx load of
           Some index \<Rightarrow> nodeLoads[index := nodeLoads ! index + v load]
         | None \<Rightarrow> nodeLoads)) acc pls ! i
      = acc ! i + (\<Sum>p\<leftarrow>pls. case idx p of Some j \<Rightarrow> if j = i then v p else 0 | None \<Rightarrow> 0)"
proof (induction pls arbitrary: acc)
  case Nil
  show ?case by simp
next
  case (Cons p pls)
  show ?case
  proof (cases "idx p")
    case None
    then show ?thesis using Cons.IH [OF Cons.prems] by simp
  next
    case (Some j)
    have "i < length (acc[j := acc ! j + v p])" using Cons.prems by simp
    from Cons.IH [OF this] Some Cons.prems show ?thesis
      by (simp add: nth_list_update)
  qed
qed

lemma mapLoadsToNodes_nth:
  "i < length nodes \<Longrightarrow>
   mapLoadsToNodes nodes pls ! i =
     (\<Sum>p\<leftarrow>pls. case findIndex (\<lambda>node. node_x node = load_positionMm p) nodes of
                 Some j \<Rightarrow> if j = i then - (magnitudeKn p * 1000) else 0 | None \<Rightarrow> 0)"
  unfolding mapLoadsToNodes_def
  by (subst nth_foldl_loads
      [where idx = "\<lambda>load. findIndex (\<lambda>node. node_x node = load_positionMm load) nodes"
        and v = "\<lambda>load. - magnitudeKn load * 1000"]) (simp_all cong: option.case_cong if_cong)

lemma sum_list_upt_double:
  fixes f :: "nat \<Rightarrow> real"
  shows "(\<Sum>index\<leftarrow>[0..<n]. if index * 2 = a then f index else 0)
           = (if even a \<and> a div 2 < n then f (a div 2) else 0)"
proof (induction n)
  case 0
  show ?case by simp
next
  case (Suc n)
  have "n * 2 = a \<longleftrightarrow> even a \<and> a div 2 = n" by auto
  then show ?case
    using Suc.IH by (auto simp: less_Suc_eq)
qed

lemma initialF_nth:
  assumes "a < length nodes * 2"
  shows "initialF nodes pls ! a = pointLoadF nodes pls a"
proof -
  let ?npl = "mapLoadsToNodes nodes pls"
  have "initialF nodes pls ! a = (\<Sum>index\<leftarrow>[0..<length nodes]. if index * 2 = a then ?npl ! index else 0)"
    unfolding initialF_def Let_def
    using assms
    by (subst nth_fold_add_at [where g = "\<lambda>index. index * 2" and v = "\<lambda>index. ?npl ! index"]) simp_all
  also have "\<dots> = (if even a \<and> a div 2 < length nodes then ?npl ! (a div 2) else 0)"
    by (rule sum_list_upt_double)
  also have "\<dots> = pointLoadF nodes pls a"
  proof (cases "even a")
    case True
    then have e: "\<And>i. (a = 2 * i) = (i = a div 2)" by auto
    from assms have "a div 2 < length nodes" by simp
    with True show ?thesis
      unfolding pointLoadF_def
      by (simp add: mapLoadsToNodes_nth e cong: option.case_cong)
  next
    case False
    then have "\<And>i. a \<noteq> 2 * i" by auto
    moreover have "\<And>x :: nat option. (case x of None \<Rightarrow> 0 | Some _ \<Rightarrow> 0) = (0::real)"
      by (simp split: option.splits)
    ultimately show ?thesis
      using False unfolding pointLoadF_def by (simp cong: option.case_cong)
  qed
  finally show ?thesis .
qed

lemma assembleSystem_entries:
  assumes asm: "assembleSystem nodes E I pls udls = (K, F, els)"
  shows "els = map (mkElement (E * I) udls nodes)
                 (filter (\<lambda>i. 0 < node_x (nodes ! (i + 1)) - node_x (nodes ! i)) [0..<length nodes - 1])"
    and "a < length nodes * 2 \<Longrightarrow> b < length nodes * 2 \<Longrightarrow> K ! a ! b = (\<Sum>e\<leftarrow>els. elementK e a b)"
    and "a < length nodes * 2 \<Longrightarrow> F ! a = pointLoadF nodes pls a + (\<Sum>e\<leftarrow>els. elementF e a)"
proof -
  let ?n = "length nodes * 2"
  let ?K0 = "replicate ?n (replicate ?n (0::real))"
  from asm have "fold (assembleElement (E * I) udls nodes) [0..<length nodes - 1]
      (?K0, initialF nodes pls, []) = (K, F, els)"
    by (simp add: assembleSystem_def Let_def)
  note inv = assemble_fold [OF this]
  show "els = map (mkElement (E * I) udls nodes)
                 (filter (\<lambda>i. 0 < node_x (nodes ! (i + 1)) - node_x (nodes ! i)) [0..<length nodes - 1])"
    using inv by simp
  show "a < ?n \<Longrightarrow> b < ?n \<Longrightarrow> K ! a ! b = (\<Sum>e\<leftarrow>els. elementK e a b)"
    using inv by simp
  show "a < ?n \<Longrightarrow> F ! a = pointLoadF nodes pls a + (\<Sum>e\<leftarrow>els. elementF e a)"
    using inv by (simp add: length_initialF initialF_nth)
qed

text \<open>
  Claim C4. For every consecutive node pair \<open>(i, i + 1)\<close> with positive length \<open>L\<close> the
  assembler records the element with the distributed load \<open>w\<close> (minus the sum of the
  intensities of the UDLs whose range contains the midpoint), the local stiffness matrix
  scaled by \<open>EI / L^3\<close> and the fixed-end force vector; the global matrix is the sum of the
  local matrices placed at the DOF indices \<open>[2i, 2i + 1, 2(i + 1), 2(i + 1) + 1]\<close>, and the
  global load vector is the sum of the local force vectors placed likewise plus
  \<open>-(magnitude * 1000)\<close> at the vertical DOF of the node at each point load's position.
\<close>

theorem assembleSystem_spec:
  "assembleSystem nodes E I pls udls = (K, F, els) \<Longrightarrow>
     els = map (specElement (E * I) udls nodes)
             (filter (\<lambda>i. 0 < node_x (nodes ! (i + 1)) - node_x (nodes ! i)) [0..<length nodes - 1])
     \<and> (\<forall>i. dofMapOf i = [2 * i, 2 * i + 1, 2 * (i + 1), 2 * (i + 1) + 1])
     \<and> length K = 2 * length nodes \<and> length F = 2 * length nodes
     \<and> (\<forall>a < 2 * length nodes. length (K ! a) = 2 * length nodes
           \<and> F ! a = pointLoadF nodes pls a + (\<Sum>e\<leftarrow>els. elementF e a)
           \<and> (\<forall>b < 2 * length nodes. K ! a ! b = (\<Sum>e\<leftarrow>els. elementK e a b)))"
proof (intro conjI allI impI)
  assume asm: "assembleSystem nodes E I pls udls = (K, F, els)"
  note sq = assembleSystem_square [OF asm]
  show "els = map (specElement (E * I) udls nodes)
             (filter (\<lambda>i. 0 < node_x (nodes ! (i + 1)) - node_x (nodes ! i)) [0..<length nodes - 1])"
    using assembleSystem_entries(1) [OF asm] by (simp add: mkElement_spec [abs_def])
  show "length K = 2 * length nodes" using sq(1) by simp
  show "length F = 2 * length nodes" using assembleSystem_shape(2) [OF asm] by simp
  show "\<And>i. dofMapOf i = [2 * i, 2 * i + 1, 2 * (i + 1), 2 * (i + 1) + 1]"
    by (simp add: dofMapOf_def)
  fix a assume a: "a < 2 * length nodes"
  show "length (K ! a) = 2 * length nodes"
    using sq a by (simp add: mult.commute)
  show "F ! a = pointLoadF nodes pls a + (\<Sum>e\<leftarrow>els. elementF e a)"
    using assembleSystem_entries(3) [OF asm, of a] a by (simp add: mult.commute)
  fix b assume "b < 2 * length nodes"
  with a show "K ! a ! b = (\<Sum>e\<leftarrow>els. elementK e a b)"
    using assembleSystem_entries(2) [OF asm, of a b] by (simp add: mult.commute)
qed

lemma upt_0_4: "[0..<4] = [0, 1, 2, 3]"
  by code_simp

lemma specElement_demo:
  "specElement 1 demoUdl demoNodes 0 =
     \<lparr>el_index = 0, el_length = 1, el_wNPerMm = - 2,
      el_kLocal = [[12, 6, - 12, 6], [6, 4, - 6, 2], [- 12, - 6, 12, - 6], [6, 2, - 6, 4]],
      el_fFixed = [- 1, - (1 / 6), - 1, 1 / 6]\<rparr>"
  by (simp add: specElement_def demoNodes_def demoUdl_def)

lemma elementK_demo: "elementK (specElement 1 demoUdl demoNodes 0) 0 0 = 12"
  by (simp add: elementK_def specElement_demo dofMapOf_def upt_0_4)

lemma elementF_demo: "elementF (specElement 1 demoUdl demoNodes 0) 2 = - 1"
  by (simp add: elementF_def specElement_demo dofMapOf_def upt_0_4)

lemma pointLoadF_demo: "pointLoadF demoNodes demoTipLoad 2 = - 3000"
  by (simp add: pointLoadF_def demoNodes_def demoTipLoad_def)

theorem assembleSystem_spec_witness:
  "\<exists>K F els. assembleSystem demoNodes 1 1 demoTipLoad demoUdl = (K, F, els)
     \<and> els = [specElement 1 demoUdl demoNodes 0]
     \<and> el_wNPerMm (specElement 1 demoUdl demoNodes 0) = - 2
     \<and> length K = 4 \<and> K ! 0 ! 0 = 12 \<and> F ! 2 = - 3001"
proof -
  obtain K F els where asm: "assembleSystem demoNodes 1 1 demoTipLoad demoUdl = (K, F, els)"
    by (cases "assembleSystem demoNodes 1 1 demoTipLoad demoUdl") auto
  note inst = assembleSystem_spec [OF asm]
  have n: "length demoNodes = 2" by (simp add: demoNodes_def)
  have flt: "filter (\<lambda>i. 0 < node_x (demoNodes ! (i + 1)) - node_x (demoNodes ! i)) [0..<length demoNodes - 1] = [0]"
    by (simp add: demoNodes_def)
  have els: "els = [specElement 1 demoUdl demoNodes 0]"
    using inst [THEN conjunct1, unfolded flt] by simp
  note rest = inst [THEN conjunct2, THEN conjunct2, unfolded n]
  have "length K = 4" using rest by simp
  moreover have "K ! 0 ! 0 = (\<Sum>e\<leftarrow>els. elementK e 0 0)" using rest by simp
  then have "K ! 0 ! 0 = 12" by (simp add: els elementK_demo)
  moreover have "F ! 2 = pointLoadF demoNodes demoTipLoad 2 + (\<Sum>e\<leftarrow>els. elementF e 2)"
    using rest by simp
  then have "F ! 2 = - 3001" by (simp add: els elementF_demo pointLoadF_demo)
  ultimately show ?thesis
    using asm els by (simp add: specElement_demo)
qed

section \<open>Properties of the response evaluator\<close>

lemma rowTimes_sum_list: "rowTimes row u = (\<Sum>j\<leftarrow>[0..<length row]. row ! j * u ! j)"
  by (simp add: rowTimes_sum interv_sum_list_conv_sum_set_nat atLeast0LessThan)

lemma elementSamples_spec:
  assumes rows: "length (el_kLocal e) = 4" "length (el_kLocal e ! 0) = 4" "length (el_kLocal e ! 1) = 4"
  shows "elementSamples nodes disp e = map (specSample nodes disp e) [0..<41]"
proof -
  let ?dm = "dofMapOf (el_index e)"
  let ?u = "map (\<lambda>dof. disp ! dof) ?dm"
  let ?ef = "map (\<lambda>(row, r). rowTimes row ?u - el_fFixed e ! r)
               (zip (el_kLocal e) [0..<length (el_kLocal e)])"
  have dm: "length ?dm = 4" by (simp add: dofMapOf_def)
  have ef: "?ef ! r = endForce e disp r" if "r < 2" for r
  proof -
    have r4: "r < length (el_kLocal e)" using that rows by simp
    have lr: "length (el_kLocal e ! r) = 4"
      using that rows by (cases "r = 0") (simp_all add: less_Suc_eq numeral_2_eq_2)
    have "?ef ! r = rowTimes (el_kLocal e ! r) ?u - el_fFixed e ! r"
      using r4 by simp
    also have "rowTimes (el_kLocal e ! r) ?u = (\<Sum>c\<leftarrow>[0..<4]. el_kLocal e ! r ! c * ?u ! c)"
      by (simp add: rowTimes_sum_list lr)
    also have "\<dots> = (\<Sum>c\<leftarrow>[0..<4]. el_kLocal e ! r ! c * disp ! (?dm ! c))"
      using dm by (intro arg_cong [where f = sum_list] map_cong refl) simp
    finally show ?thesis by (simp add: endForce_def)
  qed
  have u: "?u ! 0 = disp ! (2 * el_index e)" "?u ! 1 = disp ! (2 * el_index e + 1)"
    "?u ! 2 = disp ! (2 * (el_index e + 1))" "?u ! 3 = disp ! (2 * (el_index e + 1) + 1)"
    by (simp_all add: dofMapOf_def mult.commute)
  have ef0: "?ef ! 0 = endForce e disp 0" and ef1: "?ef ! 1 = endForce e disp 1"
    using ef [of 0] ef [of 1] by simp_all
  have n41: "(40::nat) + 1 = 41" by simp
  show ?thesis
    unfolding elementSamples_def Let_def ef0 ef1 u specSample_def hermite_def n41
    by (simp only: power2_eq_square power3_eq_cube mult.assoc mult_minus_left of_nat_numeral)
qed

lemma buildNodes_increasing:
  "i + 1 < length (buildNodes l sps pl ud) \<Longrightarrow>
   node_x (buildNodes l sps pl ud ! i) < node_x (buildNodes l sps pl ud ! (i + 1))"
  using strict_sorted_buildNodes [of l sps pl ud]
  by (simp add: sorted_wrt_iff_nth_less)

lemma buildNodes_mono:
  "i \<le> j \<Longrightarrow> j < length (buildNodes l sps pl ud) \<Longrightarrow>
   node_x (buildNodes l sps pl ud ! i) \<le> node_x (buildNodes l sps pl ud ! j)"
  using strict_sorted_buildNodes [of l sps pl ud]
  by (cases "i = j") (auto simp: sorted_wrt_iff_nth_less less_imp_le)

lemma pipeline_elements:
  assumes asm: "assembleSystem (buildNodes l sps pl ud) E I pl ud = (K, F, els)"
  shows "els = map (mkElement (E * I) ud (buildNodes l sps pl ud)) [0..<length (buildNodes l sps pl ud) - 1]"
proof -
  let ?nodes = "buildNodes l sps pl ud"
  have "filter (\<lambda>i. 0 < node_x (?nodes ! (i + 1)) - node_x (?nodes ! i)) [0..<length ?nodes - 1]
          = [0..<length ?nodes - 1]"
    using buildNodes_increasing [of _ l sps pl ud] by (intro filter_True) auto
  with assembleSystem_entries(1) [OF asm] show ?thesis by simp
qed

lemma mkElement_kLocal_shape:
  "length (el_kLocal (mkElement EI udls nodes i)) = 4"
  "r < 4 \<Longrightarrow> length (el_kLocal (mkElement EI udls nodes i) ! r) = 4"
  by (auto simp: mkElement_def kLocalOf_def Let_def less_Suc_eq numeral_eq_Suc)

lemma el_length_mkElement [simp]:
  "el_length (mkElement EI udls nodes i) = node_x (nodes ! (i + 1)) - node_x (nodes ! i)"
  by (simp add: mkElement_def Let_def)

lemma nth_concat_uniform:
  "\<forall>xs \<in> set xss. length xs = m \<Longrightarrow> p < length xss \<Longrightarrow> i < m \<Longrightarrow>
   concat xss ! (m * p + i) = xss ! p ! i"
proof (induction xss arbitrary: p)
  case Nil
  then show ?case by simp
next
  case (Cons xs xss)
  show ?case
  proof (cases p)
    case 0
    with Cons.prems show ?thesis by (simp add: nth_append)
  next
    case (Suc q)
    with Cons.prems have "concat xss ! (m * q + i) = xss ! q ! i"
      by (intro Cons.IH) auto
    moreover have "m * p + i - m = m * q + i" "\<not> m * p + i < m"
      using Suc by simp_all
    ultimately show ?thesis
      using Cons.prems Suc by (simp add: nth_append)
  qed
qed

lemma length_concat_uniform:
  "\<forall>xs \<in> set xss. length xs = m \<Longrightarrow> length (concat xss) = m * length xss"
  by (induction xss) auto

lemma sorted_concat_blocks:
  fixes xss :: "real list list"
  assumes "\<forall>xs \<in> set xss. sorted xs"
    and "sorted_wrt (\<lambda>xs ys. \<forall>a \<in> set xs. \<forall>b \<in> set ys. a \<le> b) xss"
  shows "sorted (concat xss)"
  using assms by (induction xss) (auto simp: sorted_append)

lemma sample_x_specSample:
  "sample_x (specSample nodes disp e i) = node_x (nodes ! el_index e) + el_length e * real i / 40"
  by (simp add: specSample_def Let_def)

lemma sorted_map_upt:
  fixes g :: "nat \<Rightarrow> real"
  assumes "\<And>i j. i \<le> j \<Longrightarrow> j < n \<Longrightarrow> g i \<le> g j"
  shows "sorted (map g [0..<n])"
  using assms by (simp add: sorted_iff_nth_mono)

lemma pipeline_diagrams:
  assumes asm: "assembleSystem (buildNodes l sps pl ud) E I pl ud = (K, F, els)"
    and nodes_def: "nodes = buildNodes l sps pl ud"
    and diagrams_def: "diagrams = computeDiagrams nodes els disp"
  shows "length els = length nodes - 1"
    and "length diagrams = 41 * length els"
    and "p < length els \<Longrightarrow> el_index (els ! p) = p
           \<and> el_length (els ! p) = node_x (nodes ! (p + 1)) - node_x (nodes ! p)"
    and "p < length els \<Longrightarrow> i \<le> 40 \<Longrightarrow> diagrams ! (41 * p + i) = specSample nodes disp (els ! p) i"
    and "sorted (map sample_x diagrams)"
proof -
  let ?mk = "mkElement (E * I) ud nodes"
  let ?blk = "\<lambda>e. map (specSample nodes disp e) [0..<41]"
  have els: "els = map ?mk [0..<length nodes - 1]"
    using pipeline_elements [OF asm] by (simp add: nodes_def)
  show len: "length els = length nodes - 1" by (simp add: els)
  have nth_els: "els ! p = ?mk p" if "p < length els" for p
    using that by (simp add: els)
  have samples: "elementSamples nodes disp e = ?blk e" if "e \<in> set els" for e
  proof -
    from that obtain q where "e = ?mk q" by (auto simp: els)
    then show ?thesis
      by (intro elementSamples_spec) (simp_all add: mkElement_kLocal_shape)
  qed
  have diag: "diagrams = concat (map ?blk els)"
    unfolding diagrams_def computeDiagrams_def
    by (intro arg_cong [where f = concat] map_cong refl samples)
  have uniform: "\<forall>xs \<in> set (map ?blk els). length xs = 41" by simp
  show "length diagrams = 41 * length els"
    unfolding diag using length_concat_uniform [OF uniform] by simp
  show "p < length els \<Longrightarrow> el_index (els ! p) = p
           \<and> el_length (els ! p) = node_x (nodes ! (p + 1)) - node_x (nodes ! p)"
    by (simp add: nth_els)
  show "p < length els \<Longrightarrow> i \<le> 40 \<Longrightarrow> diagrams ! (41 * p + i) = specSample nodes disp (els ! p) i"
    unfolding diag using nth_concat_uniform [OF uniform, of p i] by simp
  show "sorted (map sample_x diagrams)"
  proof -
    let ?g = "\<lambda>p i. node_x (nodes ! p) + (node_x (nodes ! (p + 1)) - node_x (nodes ! p)) * real i / 40"
    have xs: "map sample_x diagrams = concat (map (\<lambda>p. map (?g p) [0..<41]) [0..<length nodes - 1])"
      unfolding diag els by (simp add: map_concat comp_def sample_x_specSample)
    have inc: "node_x (nodes ! p) \<le> node_x (nodes ! (p + 1))" if "p < length nodes - 1" for p
      using that buildNodes_mono [of p "p + 1" l sps pl ud] by (simp add: nodes_def)
    have lo: "node_x (nodes ! p) \<le> ?g p i" if "p < length nodes - 1" for p i
      using inc [OF that] by (simp add: divide_nonneg_nonneg)
    have hi: "?g p i \<le> node_x (nodes ! (p + 1))" if "p < length nodes - 1" "i \<le> 40" for p i
    proof -
      have "(node_x (nodes ! (p + 1)) - node_x (nodes ! p)) * real i / 40
              \<le> (node_x (nodes ! (p + 1)) - node_x (nodes ! p)) * 40 / 40"
        using inc [OF that(1)] that(2)
        by (intro divide_right_mono mult_left_mono) simp_all
      then show ?thesis by simp
    qed
    have blk_sorted: "sorted (map (?g p) [0..<41])" if p: "p < length nodes - 1" for p
    proof (rule sorted_map_upt)
      fix i j :: nat assume ij: "i \<le> j"
      have "(node_x (nodes ! (p + 1)) - node_x (nodes ! p)) * real i / 40
              \<le> (node_x (nodes ! (p + 1)) - node_x (nodes ! p)) * real j / 40"
        using inc [OF p] ij by (intro divide_right_mono mult_left_mono) simp_all
      then show "?g p i \<le> ?g p j" by simp
    qed
    have blocks: "\<forall>xs \<in> set (map (\<lambda>p. map (?g p) [0..<41]) [0..<length nodes - 1]). sorted xs"
      using blk_sorted by auto
    have cross: "?g p i \<le> ?g q j" if "p < q" "q < length nodes - 1" "i \<le> 40" for p q i j
    proof -
      have "?g p i \<le> node_x (nodes ! (p + 1))" using hi [of p i] that by simp
      also have "\<dots> \<le> node_x (nodes ! q)"
        using buildNodes_mono [of "p + 1" q l sps pl ud] that by (simp add: nodes_def)
      also have "\<dots> \<le> ?g q j" using lo [of q j] that by simp
      finally show ?thesis .
    qed
    have order: "sorted_wrt (\<lambda>xs ys. \<forall>a \<in> set xs. \<forall>b \<in> set ys. a \<le> b)
        (map (\<lambda>p. map (?g p) [0..<41]) [0..<length nodes - 1])"
    proof (simp only: sorted_wrt_map, rule sorted_wrt_mono_rel [OF _ sorted_wrt_upt])
      fix p q assume pq: "p \<in> set [0..<length nodes - 1]" "q \<in> set [0..<length nodes - 1]" "p < q"
      have "?g p i \<le> ?g q j" if "i < 41" for i j
        using cross [of p q i j] pq that by simp
      then show "\<forall>a \<in> set (map (?g p) [0..<41]). \<forall>b \<in> set (map (?g q) [0..<41]). a \<le> b"
        by auto
    qed
    show ?thesis
      unfolding xs by (rule sorted_concat_blocks [OF blocks order])
  qed
qed

lemma applyBoundaryConditions_all_constrained:
  assumes "\<forall>d < length K. d \<in> set (constrainedDofs nodes)"
  shows "applyBoundaryConditions nodes K F = (constrainedDofs nodes, [], [], [])"
proof -
  have "filter (\<lambda>i. i \<notin> set (constrainedDofs nodes)) [0..<length K] = []"
    using assms by (simp add: filter_empty_conv)
  then show ?thesis
    by (simp add: applyBoundaryConditions_def Let_def)
qed



section \<open>The elimination pass in closed form\<close>

lemma fold_update_range:
  "length (fold (\<lambda>j row. row[j := h j (row ! j)]) [a..<b] row) = length row
   \<and> (\<forall>j < length row. fold (\<lambda>j row. row[j := h j (row ! j)]) [a..<b] row ! j
          = (if a \<le> j \<and> j < b then h j (row ! j) else row ! j))"
proof (induction b)
  case 0
  show ?case by simp
next
  case (Suc b)
  show ?case
  proof (cases "a \<le> b")
    case False
    then show ?thesis by auto
  next
    case True
    then show ?thesis
      using Suc.IH by (auto simp: nth_list_update less_Suc_eq)
  qed
qed

lemma swapAt_nth:
  "k < length a \<Longrightarrow> m < length a \<Longrightarrow> i < length a \<Longrightarrow>
   swapAt a k m ! i = (if i = m then a ! k else if i = k then a ! m else a ! i)"
  by (simp add: swapAt_def nth_list_update)

lemma length_swapAt [simp]: "length (swapAt a k m) = length a"
  by (simp add: swapAt_def)

lemma normalizeRow_nth:
  assumes "normalizeRow n k (M, x) = (M', x')" and "k < length M" and "k < length x"
  shows "length M' = length M" and "length x' = length x"
    and "i < length M \<Longrightarrow> i \<noteq> k \<Longrightarrow> M' ! i = M ! i"
    and "length (M' ! k) = length (M ! k)"
    and "j < length (M ! k) \<Longrightarrow>
           M' ! k ! j = (if k \<le> j \<and> j < n then M ! k ! j / (M ! k ! k) else M ! k ! j)"
    and "i < length x \<Longrightarrow> x' ! i = (if i = k then x ! k / (M ! k ! k) else x ! i)"
proof -
  let ?row = "fold (\<lambda>j row. row[j := row ! j / (M ! k ! k)]) [k..<n] (M ! k)"
  from assms(1) have M': "M' = M[k := ?row]" and x': "x' = x[k := x ! k / (M ! k ! k)]"
    by (simp_all add: normalizeRow_def Let_def)
  note fr = fold_update_range [of "\<lambda>j v. v / (M ! k ! k)" k n "M ! k"]
  show "length M' = length M" "length x' = length x" by (simp_all add: M' x')
  show "i < length M \<Longrightarrow> i \<noteq> k \<Longrightarrow> M' ! i = M ! i" by (simp add: M')
  show "length (M' ! k) = length (M ! k)" using assms(2) fr by (simp add: M')
  show "j < length (M ! k) \<Longrightarrow>
           M' ! k ! j = (if k \<le> j \<and> j < n then M ! k ! j / (M ! k ! k) else M ! k ! j)"
    using assms(2) fr by (simp add: M')
  show "i < length x \<Longrightarrow> x' ! i = (if i = k then x ! k / (M ! k ! k) else x ! i)"
    by (simp add: x' nth_list_update)
qed

lemma eliminate_fold:
  assumes "k < length M" "k < length x" "m \<le> length M" "m \<le> length x"
    and "fold (eliminateRow n k) [0..<m] (M, x) = (M', x')"
  shows "length M' = length M \<and> length x' = length x
    \<and> (\<forall>i < length M. M' ! i =
          (if i < m \<and> i \<noteq> k
           then fold (\<lambda>j row. row[j := row ! j - M ! i ! k * M ! k ! j]) [k..<n] (M ! i)
           else M ! i))
    \<and> (\<forall>i < length x. x' ! i = (if i < m \<and> i \<noteq> k then x ! i - M ! i ! k * x ! k else x ! i))"
  using assms(3-)
proof (induction m arbitrary: M' x')
  case 0
  then show ?case by simp
next
  case (Suc m)
  obtain M1 x1 where prev: "fold (eliminateRow n k) [0..<m] (M, x) = (M1, x1)"
    by (cases "fold (eliminateRow n k) [0..<m] (M, x)") auto
  from Suc.prems have m: "m < length M" "m < length x" by simp_all
  then have "m \<le> length M" "m \<le> length x" by simp_all
  note ih = Suc.IH [OF this prev]
  from Suc.prems(3) prev have step: "eliminateRow n k m (M1, x1) = (M', x')" by simp
  show ?case
  proof (cases "m = k")
    case True
    with step have "M' = M1" "x' = x1" by (simp_all add: eliminateRow_def)
    with ih True show ?thesis by (auto simp: less_Suc_eq)
  next
    case False
    have rows: "M1 ! m = M ! m" "M1 ! k = M ! k" "x1 ! m = x ! m" "x1 ! k = x ! k"
      using ih m assms(1,2) by simp_all
    from step False have M': "M' = M1[m := fold (\<lambda>j row. row[j := row ! j - M ! m ! k * M ! k ! j]) [k..<n] (M ! m)]"
      and x': "x' = x1[m := x ! m - M ! m ! k * x ! k]"
      by (simp_all add: eliminateRow_def Let_def rows)
    show ?thesis
      using ih m False by (auto simp: M' x' nth_list_update less_Suc_eq)
  qed
qed

lemma pivotStep_entries:
  assumes ws: "wellShaped n M x" and k: "k < n"
    and step: "pivotStep n k (M, x) = (M', x')"
    and S: "S = swapAt M k (findMaxRow M k n)" and sx: "sx = swapAt x k (findMaxRow M k n)"
  shows "wellShaped n M' x'"
    and "i < n \<Longrightarrow> j < n \<Longrightarrow> M' ! i ! j =
          (if i = k then (if k \<le> j then S ! k ! j / (S ! k ! k) else S ! k ! j)
           else if k \<le> j then S ! i ! j - S ! i ! k * (S ! k ! j / (S ! k ! k)) else S ! i ! j)"
    and "i < n \<Longrightarrow> x' ! i =
          (if i = k then sx ! k / (S ! k ! k) else sx ! i - S ! i ! k * (sx ! k / (S ! k ! k)))"
proof -
  let ?mr = "findMaxRow M k n"
  from ws have lM: "length M = n" and lx: "length x = n" and lrow: "\<And>i. i < n \<Longrightarrow> length (M ! i) = n"
    by (simp_all add: wellShaped_def)
  have mr: "?mr < n" using findMaxRow_props [OF k] by simp
  have lS: "length S = n" "length sx = n" by (simp_all add: S sx lM lx)
  have Srow: "length (S ! i) = n" if "i < n" for i
    using that k mr lM lrow by (simp add: S swapAt_nth)
  obtain N nx where norm: "normalizeRow n k (S, sx) = (N, nx)"
    by (cases "normalizeRow n k (S, sx)") auto
  note nr = normalizeRow_nth [OF norm, unfolded lS, OF k k]
  from step norm have el: "fold (eliminateRow n k) [0..<n] (N, nx) = (M', x')"
    by (simp add: pivotStep_def Let_def S sx)
  have lN: "length N = n" "length nx = n" using nr(1,2) by simp_all
  note ef = eliminate_fold [OF _ _ _ _ el, unfolded lN, OF k k le_refl le_refl]
  have Nrow: "length (N ! i) = n" if "i < n" for i
    using that nr(3) [of i] nr(4) Srow k by (cases "i = k") simp_all
  have Nk: "N ! k ! j = (if k \<le> j then S ! k ! j / (S ! k ! k) else S ! k ! j)" if "j < n" for j
    using nr(5) [of j] that Srow [OF k] by simp
  have Ni: "N ! i = S ! i" if "i < n" "i \<noteq> k" for i
    using nr(3) that by simp
  have M'row: "M' ! i = (if i \<noteq> k
           then fold (\<lambda>j row. row[j := row ! j - N ! i ! k * N ! k ! j]) [k..<n] (N ! i)
           else N ! i)" if "i < n" for i
    using ef that by simp
  show "wellShaped n M' x'"
    unfolding wellShaped_def
  proof (intro conjI allI impI)
    show "length M' = n" "length x' = n" using ef by simp_all
    fix i assume i: "i < n"
    show "length (M' ! i) = n"
      using M'row [OF i] Nrow [OF i]
        fold_update_range [of "\<lambda>j v. v - N ! i ! k * N ! k ! j" k n "N ! i"]
      by (cases "i = k") simp_all
  qed
  show "M' ! i ! j =
          (if i = k then (if k \<le> j then S ! k ! j / (S ! k ! k) else S ! k ! j)
           else if k \<le> j then S ! i ! j - S ! i ! k * (S ! k ! j / (S ! k ! k)) else S ! i ! j)"
    if i: "i < n" and j: "j < n"
  proof (cases "i = k")
    case True
    then show ?thesis using M'row [OF i] Nk [OF j] by simp
  next
    case False
    have "M' ! i ! j = (if k \<le> j \<and> j < n then N ! i ! j - N ! i ! k * N ! k ! j else N ! i ! j)"
      using M'row [OF i] False Nrow [OF i] j
        fold_update_range [of "\<lambda>j v. v - N ! i ! k * N ! k ! j" k n "N ! i"]
      by simp
    then show ?thesis
      using False Ni [OF i False] Nk [OF j] j by simp
  qed
  show "x' ! i =
          (if i = k then sx ! k / (S ! k ! k) else sx ! i - S ! i ! k * (sx ! k / (S ! k ! k)))"
    if i: "i < n"
  proof -
    have "x' ! i = (if i \<noteq> k then nx ! i - N ! i ! k * nx ! k else nx ! i)"
      using ef i by simp
    moreover have "nx ! i = (if i = k then sx ! k / (S ! k ! k) else sx ! i)"
      using nr(6) [of i] i by simp
    moreover have "nx ! k = sx ! k / (S ! k ! k)" using nr(6) [of k] k by simp
    ultimately show ?thesis
      using Ni [OF i] by (cases "i = k") simp_all
  qed
qed

lemma swap_facts:
  assumes ws: "wellShaped n M x" and k: "k < n" and m: "m < n"
  shows "wellShaped n (swapAt M k m) (swapAt x k m)"
    and "solves n (swapAt M k m) (swapAt x k m) y \<longleftrightarrow> solves n M x y"
    and "unitCols n k M \<Longrightarrow> k \<le> m \<Longrightarrow> unitCols n k (swapAt M k m)"
proof -
  from ws have lM: "length M = n" and lx: "length x = n" and lrow: "\<And>i. i < n \<Longrightarrow> length (M ! i) = n"
    by (simp_all add: wellShaped_def)
  have S: "swapAt M k m ! i = (if i = m then M ! k else if i = k then M ! m else M ! i)"
    and sx: "swapAt x k m ! i = (if i = m then x ! k else if i = k then x ! m else x ! i)"
    if "i < n" for i
    using that k m lM lx by (simp_all add: swapAt_nth)
  show "wellShaped n (swapAt M k m) (swapAt x k m)"
    using k m by (simp add: wellShaped_def lM lx S lrow)
  show "solves n (swapAt M k m) (swapAt x k m) y \<longleftrightarrow> solves n M x y"
  proof
    assume a: "solves n (swapAt M k m) (swapAt x k m) y"
    show "solves n M x y"
      unfolding solves_def
    proof (intro allI impI)
      fix i assume i: "i < n"
      show "dotRow n (M ! i) y = x ! i"
      proof (cases "i = k")
        case True
        then show ?thesis using a [unfolded solves_def, rule_format, OF m] S [OF m] sx [OF m] by (auto split: if_splits)
      next
        case ik: False
        show ?thesis
        proof (cases "i = m")
          case True
          then show ?thesis using a [unfolded solves_def, rule_format, OF k] S [OF k] sx [OF k] by (auto split: if_splits)
        next
          case False
          with ik show ?thesis using a [unfolded solves_def, rule_format, OF i] S [OF i] sx [OF i] by (auto split: if_splits)
        qed
      qed
    qed
  next
    assume a: "solves n M x y"
    show "solves n (swapAt M k m) (swapAt x k m) y"
      unfolding solves_def
    proof (intro allI impI)
      fix i assume i: "i < n"
      show "dotRow n (swapAt M k m ! i) y = swapAt x k m ! i"
        using a [unfolded solves_def, rule_format] S [OF i] sx [OF i] i k m by simp
    qed
  qed
  show "unitCols n k (swapAt M k m)" if u: "unitCols n k M" and km: "k \<le> m"
    unfolding unitCols_def
  proof (intro allI impI)
    fix i j assume i: "i < n" and j: "j < k"
    show "swapAt M k m ! i ! j = (if i = j then 1 else 0)"
      using u [unfolded unitCols_def, rule_format, OF _ j] S [OF i] i j k m km by auto
  qed
qed

lemma dotRow_cong:
  "(\<And>j. j < n \<Longrightarrow> r ! j = r' ! j) \<Longrightarrow> dotRow n r y = dotRow n r' y"
  unfolding dotRow_def by (intro sum.cong refl) simp

lemma eliminated_system:
  assumes u: "unitCols n k S" and k: "k < n" and p: "S ! k ! k \<noteq> 0"
    and M': "\<And>i j. i < n \<Longrightarrow> j < n \<Longrightarrow> M' ! i ! j =
          (if i = k then (if k \<le> j then S ! k ! j / (S ! k ! k) else S ! k ! j)
           else if k \<le> j then S ! i ! j - S ! i ! k * (S ! k ! j / (S ! k ! k)) else S ! i ! j)"
    and x': "\<And>i. i < n \<Longrightarrow> x' ! i =
          (if i = k then sx ! k / (S ! k ! k) else sx ! i - S ! i ! k * (sx ! k / (S ! k ! k)))"
  shows "unitCols n (k + 1) M'"
    and "solves n M' x' y \<longleftrightarrow> solves n S sx y"
proof -
  let ?p = "S ! k ! k"
  have Sk0: "S ! k ! j = 0" if "j < k" for j
    using u [unfolded unitCols_def, rule_format, OF k that] that by simp
  have rowk: "M' ! k ! j = S ! k ! j / ?p" if "j < n" for j
    using M' [OF k that] Sk0 [of j] by (cases "k \<le> j") simp_all
  have rowi: "M' ! i ! j = S ! i ! j - S ! i ! k * (S ! k ! j / ?p)" if "i < n" "i \<noteq> k" "j < n" for i j
    using M' [OF that(1,3)] that(2) Sk0 [of j] by (cases "k \<le> j") simp_all
  show "unitCols n (k + 1) M'"
    unfolding unitCols_def
  proof (intro allI impI)
    fix i j assume i: "i < n" and j: "j < k + 1"
    then have jn: "j < n" using k by simp
    show "M' ! i ! j = (if i = j then 1 else 0)"
    proof (cases "j = k")
      case True
      then show ?thesis
        using rowk [OF k] rowi [OF i _ k] p by (cases "i = k") simp_all
    next
      case False
      with j have jk: "j < k" by simp
      have "S ! i ! j = (if i = j then 1 else 0)"
        using u [unfolded unitCols_def, rule_format, OF i jk] .
      then show ?thesis
        using rowk [OF jn] rowi [OF i _ jn] Sk0 [OF jk] jk by (cases "i = k") simp_all
    qed
  qed
  have dk: "dotRow n (M' ! k) y = dotRow n (S ! k) y / ?p"
    unfolding dotRow_def by (simp add: rowk sum_divide_distrib)
  have di: "dotRow n (M' ! i) y = dotRow n (S ! i) y - S ! i ! k * (dotRow n (S ! k) y / ?p)"
    if "i < n" "i \<noteq> k" for i
  proof -
    have "dotRow n (M' ! i) y = (\<Sum>j<n. S ! i ! j * y ! j - S ! i ! k * (S ! k ! j * y ! j / ?p))"
      unfolding dotRow_def using that by (intro sum.cong refl) (simp add: rowi algebra_simps)
    also have "\<dots> = dotRow n (S ! i) y - S ! i ! k * (dotRow n (S ! k) y / ?p)"
      unfolding dotRow_def by (simp add: sum_subtractf sum_distrib_left sum_divide_distrib)
    finally show ?thesis .
  qed
  show "solves n M' x' y \<longleftrightarrow> solves n S sx y"
  proof
    assume a: "solves n M' x' y"
    have ek: "dotRow n (S ! k) y = sx ! k"
      using a [unfolded solves_def, rule_format, OF k] dk x' [OF k] p by simp
    show "solves n S sx y"
      unfolding solves_def
    proof (intro allI impI)
      fix i assume i: "i < n"
      show "dotRow n (S ! i) y = sx ! i"
      proof (cases "i = k")
        case True
        then show ?thesis using ek by simp
      next
        case False
        then show ?thesis
          using a [unfolded solves_def, rule_format, OF i] di [OF i False] x' [OF i] ek by simp
      qed
    qed
  next
    assume a: "solves n S sx y"
    show "solves n M' x' y"
      unfolding solves_def
    proof (intro allI impI)
      fix i assume i: "i < n"
      show "dotRow n (M' ! i) y = x' ! i"
      proof (cases "i = k")
        case True
        then show ?thesis
          using a [unfolded solves_def, rule_format, OF k] dk x' [OF k] by simp
      next
        case False
        then show ?thesis
          using a [unfolded solves_def, rule_format, OF i] a [unfolded solves_def, rule_format, OF k]
            di [OF i False] x' [OF i] by simp
      qed
    qed
  qed
qed

section \<open>Correctness of the solver\<close>

lemma unit_system:
  assumes "unitCols n n M"
  shows "solves n M x y \<longleftrightarrow> (\<forall>i < n. y ! i = x ! i)"
proof -
  have "dotRow n (M ! i) y = y ! i" if i: "i < n" for i
  proof -
    have "dotRow n (M ! i) y = (\<Sum>j<n. if j = i then y ! j else 0)"
      unfolding dotRow_def
      using assms [unfolded unitCols_def, rule_format, OF i]
      by (intro sum.cong refl) auto
    also have "\<dots> = y ! i" using i by simp
    finally show ?thesis .
  qed
  then show ?thesis by (simp add: solves_def)
qed

lemma solveFrom_correct:
  "solveFrom n k Mx = Some z \<Longrightarrow> k \<le> n \<Longrightarrow> wellShaped n (fst Mx) (snd Mx) \<Longrightarrow>
   unitCols n k (fst Mx) \<Longrightarrow>
   length z = n \<and> (\<forall>y. solves n (fst Mx) (snd Mx) y \<longleftrightarrow> (\<forall>i < n. y ! i = z ! i))"
proof (induction n k Mx rule: solveFrom.induct)
  case (1 n k Mx)
  obtain M x where Mx: "Mx = (M, x)" by (cases Mx)
  show ?case
  proof (cases "k < n")
    case False
    with "1.prems" have kn: "k = n" and z: "z = x"
      by (simp_all add: solveFrom.simps [of n k] Mx)
    from "1.prems" have "length x = n" by (simp add: wellShaped_def Mx)
    moreover have "\<forall>y. solves n M x y \<longleftrightarrow> (\<forall>i < n. y ! i = x ! i)"
      using unit_system [of n M x] "1.prems"(4) by (simp add: kn Mx)
    ultimately show ?thesis by (simp add: z Mx)
  next
    case kn: True
    let ?mr = "findMaxRow M k n"
    let ?S = "swapAt M k ?mr" and ?sx = "swapAt x k ?mr"
    from "1.prems"(1) kn have small: "\<not> pivotTooSmall n k Mx"
      and rec: "solveFrom n (k + 1) (pivotStep n k Mx) = Some z"
      by (auto simp: solveFrom.simps [of n k] split: if_splits)
    obtain M' x' where step: "pivotStep n k (M, x) = (M', x')"
      by (cases "pivotStep n k (M, x)") auto
    have ws: "wellShaped n M x" and u: "unitCols n k M"
      using "1.prems" by (simp_all add: Mx)
    have mr: "k \<le> ?mr" "?mr < n" using findMaxRow_props [OF kn, of M] by simp_all
    have lM: "length M = n" using ws by (simp add: wellShaped_def)
    have Skk: "?S ! k ! k = M ! ?mr ! k"
      using kn mr lM by (simp add: swapAt_nth)
    have p: "?S ! k ! k \<noteq> 0"
      using small by (auto simp: pivotTooSmall_def Mx Skk)
    note sw = swap_facts [OF ws kn mr(2)]
    note pe = pivotStep_entries [OF ws kn step refl refl]
    note es = eliminated_system [OF sw(3) [OF u mr(1)] kn p pe(2) pe(3)]
    have "length z = n \<and> (\<forall>y. solves n (fst (pivotStep n k Mx)) (snd (pivotStep n k Mx)) y
            \<longleftrightarrow> (\<forall>i < n. y ! i = z ! i))"
      using "1.IH" [OF kn small rec] kn pe(1) es(1) by (simp add: Mx step)
    then show ?thesis
      using es(2) sw(2) by (simp add: Mx step)
  qed
qed

lemma solveLinearSystem_correct:
  assumes "solveLinearSystem A b = Some z" and "wellShaped (length b) A b"
  shows "length z = length b"
    and "solves (length b) A b y \<longleftrightarrow> (\<forall>i < length b. y ! i = z ! i)"
proof -
  from assms(1) have "solveFrom (length b) 0 (A, b) = Some z"
    by (simp add: solveLinearSystem_def)
  from solveFrom_correct [OF this] assms(2)
  show "length z = length b" "solves (length b) A b y \<longleftrightarrow> (\<forall>i < length b. y ! i = z ! i)"
    by (simp_all add: unitCols_def)
qed

lemma solveLinearSystem_solves:
  "solveLinearSystem A b = Some z \<Longrightarrow> wellShaped (length b) A b \<Longrightarrow> solves (length b) A b z"
  using solveLinearSystem_correct(2) [of A b z z] by simp

lemma solveLinearSystem_singular:
  assumes ws: "wellShaped (length b) A b"
    and null: "\<forall>i < length b. dotRow (length b) (A ! i) v = 0"
    and nz: "i0 < length b" "v ! i0 \<noteq> 0"
  shows "solveLinearSystem A b = None"
proof (rule ccontr)
  assume "solveLinearSystem A b \<noteq> None"
  then obtain z where z: "solveLinearSystem A b = Some z" by auto
  let ?n = "length b"
  let ?y = "map (\<lambda>i. z ! i + v ! i) [0..<?n]"
  have sz: "solves ?n A b z" using solveLinearSystem_solves [OF z ws] .
  have "dotRow ?n (A ! i) ?y = dotRow ?n (A ! i) z + dotRow ?n (A ! i) v" if "i < ?n" for i
    unfolding dotRow_def by (simp add: algebra_simps sum.distrib)
  then have "solves ?n A b ?y"
    using sz null by (simp add: solves_def)
  then have "\<forall>i < ?n. ?y ! i = z ! i"
    using solveLinearSystem_correct(2) [OF z ws, of ?y] by simp
  with nz show False by simp
qed

section \<open>Rigid-body motions and the singular systems\<close>

lemma elementK_dot:
  assumes dm: "\<And>c. c < 4 \<Longrightarrow> dofMapOf (el_index e) ! c < N"
  shows "(\<Sum>b<N. elementK e a b * w ! b) =
     (\<Sum>r\<leftarrow>[0..<4]. if dofMapOf (el_index e) ! r = a
        then (\<Sum>c\<leftarrow>[0..<4]. el_kLocal e ! r ! c * w ! (dofMapOf (el_index e) ! c)) else 0)"
proof -
  let ?dm = "dofMapOf (el_index e)"
  let ?kl = "el_kLocal e"
  have "(\<Sum>b<N. elementK e a b * w ! b)
      = (\<Sum>b<N. \<Sum>r\<in>{0..<4}. \<Sum>c\<in>{0..<4}. if ?dm ! r = a \<and> ?dm ! c = b then ?kl ! r ! c * w ! b else 0)"
    unfolding elementK_def
    by (simp add: interv_sum_list_conv_sum_set_nat sum_distrib_right if_distrib [of "\<lambda>v. v * _"] cong: if_cong)
  also have "\<dots> = (\<Sum>r\<in>{0..<4}. \<Sum>b<N. \<Sum>c\<in>{0..<4}. if ?dm ! r = a \<and> ?dm ! c = b then ?kl ! r ! c * w ! b else 0)"
    by (rule sum.swap)
  also have "\<dots> = (\<Sum>r\<in>{0..<4}. \<Sum>c\<in>{0..<4}. \<Sum>b<N. if ?dm ! r = a \<and> ?dm ! c = b then ?kl ! r ! c * w ! b else 0)"
    by (intro sum.cong refl sum.swap)
  also have "\<dots> = (\<Sum>r\<in>{0..<4}. \<Sum>c\<in>{0..<4}. if ?dm ! r = a then ?kl ! r ! c * w ! (?dm ! c) else 0)"
  proof (intro sum.cong refl)
    fix r c :: nat assume "c \<in> {0..<4}"
    then have c: "?dm ! c < N" using dm by simp
    have "(\<Sum>b<N. if ?dm ! r = a \<and> ?dm ! c = b then ?kl ! r ! c * w ! b else 0)
        = (\<Sum>b<N. if b = ?dm ! c then (if ?dm ! r = a then ?kl ! r ! c * w ! b else 0) else 0)"
      by (intro sum.cong refl) auto
    also have "\<dots> = (if ?dm ! r = a then ?kl ! r ! c * w ! (?dm ! c) else 0)"
      using c by (simp add: sum.delta)
    finally show "(\<Sum>b<N. if ?dm ! r = a \<and> ?dm ! c = b then ?kl ! r ! c * w ! b else 0)
        = (if ?dm ! r = a then ?kl ! r ! c * w ! (?dm ! c) else 0)" .
  qed
  also have "\<dots> = (\<Sum>r\<leftarrow>[0..<4]. if ?dm ! r = a
        then (\<Sum>c\<leftarrow>[0..<4]. ?kl ! r ! c * w ! (?dm ! c)) else 0)"
    unfolding interv_sum_list_conv_sum_set_nat set_upt
    by (intro sum.cong refl) simp
  finally show ?thesis .
qed

lemma length_rigidBody [simp]: "length (rigidBody t th nodes) = 2 * length nodes"
  unfolding rigidBody_def by (subst length_concat_uniform [where m = 2]) auto

lemma rigidBody_nth:
  assumes "i < length nodes"
  shows "rigidBody t th nodes ! (2 * i) = t + th * node_x (nodes ! i)"
    and "rigidBody t th nodes ! (2 * i + 1) = th"
proof -
  have u: "\<forall>xs \<in> set (map (\<lambda>nd. [t + th * node_x nd, th]) nodes). length xs = 2" by simp
  show "rigidBody t th nodes ! (2 * i) = t + th * node_x (nodes ! i)"
    using nth_concat_uniform [OF u, of i 0] assms by (simp add: rigidBody_def)
  show "rigidBody t th nodes ! (2 * i + 1) = th"
    using nth_concat_uniform [OF u, of i 1] assms by (simp add: rigidBody_def)
qed

lemma sum_list_upt_4: "(\<Sum>c\<leftarrow>[0..<4]. g c) = g 0 + g 1 + g 2 + (g 3 :: real)"
  by (simp add: upt_0_4)

lemma dofMapOf_nth:
  "dofMapOf i ! 0 = 2 * i" "dofMapOf i ! 1 = 2 * i + 1"
  "dofMapOf i ! 2 = 2 * (i + 1)" "dofMapOf i ! 3 = 2 * (i + 1) + 1"
  by (simp_all add: dofMapOf_def numeral_eq_Suc)

lemma kLocalOf_rows:
  "\<exists>f. kLocalOf EI L =
     [[12 * f, 6 * L * f, - 12 * f, 6 * L * f],
      [6 * L * f, 4 * (L * L) * f, - 6 * L * f, 2 * (L * L) * f],
      [- 12 * f, - 6 * L * f, 12 * f, - 6 * L * f],
      [6 * L * f, 2 * (L * L) * f, - 6 * L * f, 4 * (L * L) * f]]"
  by (rule exI [of _ "EI / (L * L * L)"]) (simp add: kLocalOf_def Let_def)

lemma kLocalOf_rigid:
  assumes r: "r < 4"
  shows "kLocalOf EI (x2 - x1) ! r ! 0 * (t + th * x1) + kLocalOf EI (x2 - x1) ! r ! 1 * th
       + kLocalOf EI (x2 - x1) ! r ! 2 * (t + th * x2) + kLocalOf EI (x2 - x1) ! r ! 3 * th = 0"
proof -
  obtain f where kl: "kLocalOf EI (x2 - x1) =
     [[12 * f, 6 * (x2 - x1) * f, - 12 * f, 6 * (x2 - x1) * f],
      [6 * (x2 - x1) * f, 4 * ((x2 - x1) * (x2 - x1)) * f, - 6 * (x2 - x1) * f, 2 * ((x2 - x1) * (x2 - x1)) * f],
      [- 12 * f, - 6 * (x2 - x1) * f, 12 * f, - 6 * (x2 - x1) * f],
      [6 * (x2 - x1) * f, 2 * ((x2 - x1) * (x2 - x1)) * f, - 6 * (x2 - x1) * f, 4 * ((x2 - x1) * (x2 - x1)) * f]]"
    using kLocalOf_rows [of EI "x2 - x1"] by blast
  from r have "r = 0 \<or> r = 1 \<or> r = 2 \<or> r = 3" by auto
  then show ?thesis
    unfolding kl by (elim disjE) (simp_all add: algebra_simps)
qed

lemma el_kLocal_mkElement:
  "el_kLocal (mkElement EI udls nodes i) = kLocalOf EI (node_x (nodes ! (i + 1)) - node_x (nodes ! i))"
  by (simp add: mkElement_def Let_def)

lemma element_rigid:
  assumes i: "i + 1 < length nodes" and r: "r < 4"
  shows "(\<Sum>c\<leftarrow>[0..<4]. el_kLocal (mkElement EI udls nodes i) ! r ! c
            * rigidBody t th nodes ! (dofMapOf i ! c)) = 0"
proof -
  have i0: "i < length nodes" using i by simp
  show ?thesis
    unfolding sum_list_upt_4 dofMapOf_nth el_kLocal_mkElement
      rigidBody_nth [OF i0] rigidBody_nth [OF i]
    by (rule kLocalOf_rigid [OF r])
qed

lemma sum_sum_list_swap:
  fixes f :: "'a \<Rightarrow> nat \<Rightarrow> real"
  shows "(\<Sum>b\<in>S. (\<Sum>e\<leftarrow>es. f e b) * g b) = (\<Sum>e\<leftarrow>es. \<Sum>b\<in>S. f e b * g b)"
  by (induction es) (simp_all add: sum.distrib algebra_simps)

lemma stiffness_rigid:
  assumes asm: "assembleSystem nodes E I pls udls = (K, F, els)"
    and a: "a < 2 * length nodes"
  shows "dotRow (2 * length nodes) (K ! a) (rigidBody t th nodes) = 0"
proof -
  let ?N = "2 * length nodes"
  let ?w = "rigidBody t th nodes"
  note ent = assembleSystem_entries [OF asm]
  have "dotRow ?N (K ! a) ?w = (\<Sum>b<?N. (\<Sum>e\<leftarrow>els. elementK e a b) * ?w ! b)"
    unfolding dotRow_def using a ent(2) [of a] by (intro sum.cong refl) (simp add: mult.commute)
  also have "\<dots> = (\<Sum>e\<leftarrow>els. \<Sum>b<?N. elementK e a b * ?w ! b)"
    by (rule sum_sum_list_swap)
  also have "\<dots> = (\<Sum>e\<leftarrow>els. 0)"
  proof (intro arg_cong [where f = sum_list] map_cong refl)
    fix e assume "e \<in> set els"
    then obtain i where e: "e = mkElement (E * I) udls nodes i" and i: "i + 1 < length nodes"
      unfolding ent(1) by auto
    have dm: "\<And>c. c < 4 \<Longrightarrow> dofMapOf (el_index e) ! c < ?N"
      using i by (auto simp: e dofMapOf_def less_Suc_eq numeral_eq_Suc)
    have "(\<Sum>b<?N. elementK e a b * ?w ! b) =
        (\<Sum>r\<leftarrow>[0..<4]. if dofMapOf (el_index e) ! r = a
          then (\<Sum>c\<leftarrow>[0..<4]. el_kLocal e ! r ! c * ?w ! (dofMapOf (el_index e) ! c)) else 0)"
      by (rule elementK_dot [OF dm])
    also have "\<dots> = (\<Sum>r\<leftarrow>[0..<4]. 0)"
      by (intro arg_cong [where f = sum_list] map_cong refl)
         (simp add: e element_rigid [OF i])
    finally show "(\<Sum>b<?N. elementK e a b * ?w ! b) = 0" by simp
  qed
  finally show ?thesis by simp
qed

lemma reduced_wellShaped:
  assumes "applyBoundaryConditions nodes K F = (c, free, Kff, Ff)"
  shows "wellShaped (length Ff) Kff Ff"
  using applyBoundaryConditions_facts(3-5) [OF assms]
  by (simp add: wellShaped_def)

lemma reduced_singular:
  assumes lK: "length K = N"
    and bc: "applyBoundaryConditions nodes K F = (c, free, Kff, Ff)"
    and null: "\<forall>a < N. dotRow N (K ! a) w = 0"
    and zero: "\<forall>d \<in> set c. w ! d = 0"
    and nz: "d0 < N" "d0 \<notin> set c" "w ! d0 \<noteq> 0"
  shows "solveLinearSystem Kff Ff = None"
proof -
  from bc have free: "free = filter (\<lambda>i. i \<notin> set c) [0..<N]"
    by (auto simp: applyBoundaryConditions_def Let_def lK)
  note facts = applyBoundaryConditions_facts [OF bc]
  let ?n = "length Ff"
  let ?v = "map (\<lambda>d. w ! d) free"
  have n: "?n = length free" using facts(4) .
  have dist: "distinct free" by (simp add: free)
  have sub: "set free \<subseteq> {..<N}" by (auto simp: free)
  have row: "dotRow ?n (Kff ! a) ?v = 0" if a: "a < ?n" for a
  proof -
    let ?r = "free ! a"
    have ra: "?r < N" using a n sub by (metis lessThan_iff nth_mem subsetD)
    have "dotRow ?n (Kff ! a) ?v = (\<Sum>b<length free. K ! ?r ! (free ! b) * w ! (free ! b))"
      unfolding dotRow_def n using facts(5) a n by (intro sum.cong refl) simp
    also have "\<dots> = (\<Sum>d\<leftarrow>free. K ! ?r ! d * w ! d)"
      by (simp add: sum_list_sum_nth atLeast0LessThan)
    also have "\<dots> = (\<Sum>d\<in>set free. K ! ?r ! d * w ! d)"
      using dist by (rule sum_list_distinct_conv_sum_set)
    also have "\<dots> = (\<Sum>d<N. K ! ?r ! d * w ! d)"
    proof (rule sum.mono_neutral_left)
      show "finite {..<N}" by simp
      show "set free \<subseteq> {..<N}" by (rule sub)
      show "\<forall>d \<in> {..<N} - set free. K ! ?r ! d * w ! d = 0"
        using zero by (auto simp: free)
    qed
    also have "\<dots> = 0" using null ra by (simp add: dotRow_def)
    finally show ?thesis .
  qed
  have "d0 \<in> set free" using nz by (simp add: free)
  then obtain i0 where i0: "i0 < length free" "free ! i0 = d0"
    by (auto simp: in_set_conv_nth)
  have "solveLinearSystem Kff Ff = None"
  proof (rule solveLinearSystem_singular [OF reduced_wellShaped [OF bc], of ?v i0])
    show "\<forall>i < ?n. dotRow ?n (Kff ! i) ?v = 0" using row by simp
    show "i0 < ?n" using i0 n by simp
    show "?v ! i0 \<noteq> 0" using i0 nz by simp
  qed
  then show ?thesis .
qed

lemma buildNodes_nonempty: "0 \<le> l \<Longrightarrow> buildNodes l sps pl ud \<noteq> []"
proof -
  assume "0 \<le> l"
  then have "0 \<in> {p \<in> set (basePositions l sps pl ud). 0 \<le> p \<and> p \<le> l}"
    by (simp add: basePositions_def)
  moreover have "set (sorted_list_of_set {p \<in> set (basePositions l sps pl ud). 0 \<le> p \<and> p \<le> l})
      = {p \<in> set (basePositions l sps pl ud). 0 \<le> p \<and> p \<le> l}"
    by simp
  ultimately have ne: "sorted_list_of_set {p \<in> set (basePositions l sps pl ud). 0 \<le> p \<and> p \<le> l} \<noteq> []"
    by (metis empty_iff empty_set)
  show ?thesis
  proof
    assume "buildNodes l sps pl ud = []"
    then have "map node_x (buildNodes l sps pl ud) = []" by simp
    then show False using ne by (simp only: map_node_x_buildNodes)
  qed
qed

lemma unsupported_solver_fails:
  assumes l: "0 \<le> l"
    and kinds: "(\<forall>nd \<in> set (buildNodes l sps pl ud). supportType nd = Free)
       \<or> (\<exists>p < length (buildNodes l sps pl ud). supportType (buildNodes l sps pl ud ! p) = Pinned
            \<and> (\<forall>i < length (buildNodes l sps pl ud). i \<noteq> p \<longrightarrow> supportType (buildNodes l sps pl ud ! i) = Free))"
    and asm: "assembleSystem (buildNodes l sps pl ud) E I pl ud = (K, F, els)"
    and bc: "applyBoundaryConditions (buildNodes l sps pl ud) K F = (c, f, Kff, Ff)"
  shows "solveLinearSystem Kff Ff = None"
proof -
  let ?nodes = "buildNodes l sps pl ud"
  let ?N = "2 * length ?nodes"
  have n: "0 < length ?nodes" using buildNodes_nonempty [OF l] by simp
  have lK: "length K = ?N" using assembleSystem_square(1) [OF asm] by simp
  have c: "set c = {d. \<exists>i < length ?nodes. (supportType (?nodes ! i) = Pinned \<and> d = 2 * i)
                 \<or> (supportType (?nodes ! i) = Fixed \<and> (d = 2 * i \<or> d = 2 * i + 1))}"
    using applyBoundaryConditions_facts(1) [OF bc] .
  from kinds show ?thesis
  proof
    assume free: "\<forall>nd \<in> set ?nodes. supportType nd = Free"
    then have c0: "set c = {}" by (auto simp: c)
    show ?thesis
    proof (rule reduced_singular [OF lK bc, of "rigidBody 1 0 ?nodes" 0])
      show "\<forall>a < ?N. dotRow ?N (K ! a) (rigidBody 1 0 ?nodes) = 0"
        using stiffness_rigid [OF asm] by simp
      show "\<forall>d \<in> set c. rigidBody 1 0 ?nodes ! d = 0" by (simp add: c0)
      show "0 < ?N" using n by simp
      show "0 \<notin> set c" by (simp add: c0)
      show "rigidBody 1 0 ?nodes ! 0 \<noteq> 0"
        using rigidBody_nth(1) [OF n, of 1 0] by simp
    qed
  next
    assume "\<exists>p < length ?nodes. supportType (?nodes ! p) = Pinned
            \<and> (\<forall>i < length ?nodes. i \<noteq> p \<longrightarrow> supportType (?nodes ! i) = Free)"
    then obtain p where p: "p < length ?nodes" "supportType (?nodes ! p) = Pinned"
      and others: "\<And>i. i < length ?nodes \<Longrightarrow> i \<noteq> p \<Longrightarrow> supportType (?nodes ! i) = Free"
      by blast
    have kind: "supportType (?nodes ! i) = (if i = p then Pinned else Free)"
      if "i < length ?nodes" for i
      using that p others by auto
    have cp: "set c = {2 * p}"
    proof (rule set_eqI)
      fix d
      show "d \<in> set c \<longleftrightarrow> d \<in> {2 * p}"
      proof
        assume "d \<in> set c"
        then obtain i where i: "i < length ?nodes"
          and k: "(supportType (?nodes ! i) = Pinned \<and> d = 2 * i)
                 \<or> (supportType (?nodes ! i) = Fixed \<and> (d = 2 * i \<or> d = 2 * i + 1))"
          unfolding c by blast
        from k kind [OF i] have "i = p \<and> d = 2 * i"
          by (cases "i = p") auto
        then show "d \<in> {2 * p}" by simp
      next
        assume "d \<in> {2 * p}"
        then show "d \<in> set c" unfolding c using p by auto
      qed
    qed
    have odd1: "(1::nat) \<noteq> 2 * p" by presburger
    let ?w = "rigidBody (- node_x (?nodes ! p)) 1 ?nodes"
    show ?thesis
    proof (rule reduced_singular [OF lK bc, of ?w 1])
      show "\<forall>a < ?N. dotRow ?N (K ! a) ?w = 0"
        using stiffness_rigid [OF asm] by simp
      show "\<forall>d \<in> set c. ?w ! d = 0"
        using rigidBody_nth(1) [OF p(1), of "- node_x (?nodes ! p)" 1] by (simp add: cp)
      show "1 < ?N" using n by arith
      show "1 \<notin> set c" unfolding cp using odd1 by simp
      show "?w ! 1 \<noteq> 0"
        using rigidBody_nth(2) [OF n, of "- node_x (?nodes ! p)" 1] by simp
    qed
  qed
qed


lemma buildNodes_unsupported:
  "buildNodes 1 [] demoTipLoad [] = [\<lparr>node_x = 0, supportType = Free\<rparr>, \<lparr>node_x = 1, supportType = Free\<rparr>]"
  by (simp add: buildNodes_def basePositions_def uniqueSorted_def new_Set_def nodeAt_def demoTipLoad_def)

lemma buildNodes_pinnedOnly:
  "buildNodes 1 demoPinnedSupport demoTipLoad [] =
     [\<lparr>node_x = 0, supportType = Pinned\<rparr>, \<lparr>node_x = 1, supportType = Free\<rparr>]"
  by (simp add: buildNodes_def basePositions_def uniqueSorted_def new_Set_def nodeAt_def
      demoTipLoad_def demoPinnedSupport_def)


section \<open>Reactions and global equilibrium\<close>

lemma fold_assign:
  fixes d0 :: "real list"
  shows "distinct (map fst ps) \<Longrightarrow>
    length (fold (\<lambda>(index, i) d. d[index := g i]) ps d0) = length d0
    \<and> (\<forall>(index, i) \<in> set ps. index < length d0 \<longrightarrow>
          fold (\<lambda>(index, i) d. d[index := g i]) ps d0 ! index = g i)
    \<and> (\<forall>k. k \<notin> fst ` set ps \<longrightarrow> fold (\<lambda>(index, i) d. d[index := g i]) ps d0 ! k = d0 ! k)"
proof (induction ps arbitrary: d0)
  case Nil
  show ?case by simp
next
  case (Cons q ps)
  obtain a i where q: "q = (a, i)" by (cases q)
  from Cons.prems have dist: "distinct (map fst ps)" and a: "a \<notin> fst ` set ps"
    by (simp_all add: q)
  note ih = Cons.IH [OF dist, of "d0[a := g i]"]
  show ?case
    using ih a by (auto simp: q nth_list_update)
qed

lemma expandDisplacements_props:
  assumes dist: "distinct f" and sub: "set f \<subseteq> {..<N}"
  shows "length (expandDisplacements N f fd) = N"
    and "j < length f \<Longrightarrow> expandDisplacements N f fd ! (f ! j) = fd ! j"
    and "k \<notin> set f \<Longrightarrow> k < N \<Longrightarrow> expandDisplacements N f fd ! k = 0"
proof -
  let ?ps = "zip f [0..<length f]"
  have fst: "map fst ?ps = f" by simp
  note fa = fold_assign [of ?ps "\<lambda>i. fd ! i" "replicate N 0", unfolded fst, OF dist]
  show "length (expandDisplacements N f fd) = N"
    using fa by (simp add: expandDisplacements_def)
  show "expandDisplacements N f fd ! (f ! j) = fd ! j" if j: "j < length f"
  proof -
    have "(f ! j, j) \<in> set ?ps" using j by (auto simp: set_zip)
    moreover have "f ! j < N" using j sub by (metis lessThan_iff nth_mem subsetD)
    ultimately show ?thesis
      using fa by (auto simp: expandDisplacements_def)
  qed
  show "expandDisplacements N f fd ! k = 0" if "k \<notin> set f" "k < N"
  proof -
    have "k \<notin> fst ` set ?ps" using that(1) by (metis fst list.set_map)
    then show ?thesis
      using fa that(2) by (simp add: expandDisplacements_def)
  qed
qed

lemma free_residual:
  assumes lK: "length K = N"
    and bc: "applyBoundaryConditions nodes K F = (c, f, Kff, Ff)"
    and solve: "solveLinearSystem Kff Ff = Some fd"
    and i: "i < length f"
  shows "dotRow N (K ! (f ! i)) (expandDisplacements N f fd) = F ! (f ! i)"
proof -
  let ?disp = "expandDisplacements N f fd"
  from bc have free: "f = filter (\<lambda>i. i \<notin> set c) [0..<N]"
    by (auto simp: applyBoundaryConditions_def Let_def lK)
  have dist: "distinct f" and sub: "set f \<subseteq> {..<N}" by (auto simp: free)
  note ed = expandDisplacements_props [OF dist sub, where fd = fd]
  note facts = applyBoundaryConditions_facts [OF bc]
  have n: "length Ff = length f" using facts(4) .
  have "solves (length Ff) Kff Ff fd"
    using solveLinearSystem_solves [OF solve reduced_wellShaped [OF bc]] .
  then have eq: "dotRow (length f) (Kff ! i) fd = Ff ! i"
    using i n by (simp add: solves_def)
  let ?r = "f ! i"
  have "dotRow N (K ! ?r) ?disp = (\<Sum>d<N. K ! ?r ! d * ?disp ! d)"
    by (simp add: dotRow_def)
  also have "\<dots> = (\<Sum>d\<in>set f. K ! ?r ! d * ?disp ! d)"
  proof (rule sum.mono_neutral_right)
    show "finite {..<N}" by simp
    show "set f \<subseteq> {..<N}" by (rule sub)
    show "\<forall>d \<in> {..<N} - set f. K ! ?r ! d * ?disp ! d = 0"
      using ed(3) by auto
  qed
  also have "\<dots> = (\<Sum>d\<leftarrow>f. K ! ?r ! d * ?disp ! d)"
    using dist by (rule sum_list_distinct_conv_sum_set [symmetric])
  also have "\<dots> = (\<Sum>j<length f. K ! ?r ! (f ! j) * ?disp ! (f ! j))"
    by (simp add: sum_list_sum_nth atLeast0LessThan)
  also have "\<dots> = (\<Sum>j<length f. Kff ! i ! j * fd ! j)"
    using facts(5) i ed(2) by (intro sum.cong refl) simp
  also have "\<dots> = Ff ! i" using eq by (simp add: dotRow_def)
  also have "\<dots> = F ! ?r" using facts(5) i by simp
  finally show ?thesis .
qed

lemma kLocalOf_sym: "r < 4 \<Longrightarrow> c < 4 \<Longrightarrow> kLocalOf EI L ! r ! c = kLocalOf EI L ! c ! r"
proof -
  assume r: "r < 4" and c: "c < 4"
  obtain f where kl: "kLocalOf EI L =
     [[12 * f, 6 * L * f, - 12 * f, 6 * L * f],
      [6 * L * f, 4 * (L * L) * f, - 6 * L * f, 2 * (L * L) * f],
      [- 12 * f, - 6 * L * f, 12 * f, - 6 * L * f],
      [6 * L * f, 2 * (L * L) * f, - 6 * L * f, 4 * (L * L) * f]]"
    using kLocalOf_rows [of EI L] by blast
  from r have "r = 0 \<or> r = 1 \<or> r = 2 \<or> r = 3" by auto
  moreover from c have "c = 0 \<or> c = 1 \<or> c = 2 \<or> c = 3" by auto
  ultimately show ?thesis
    unfolding kl by (elim disjE) simp_all
qed

lemma elementK_sym:
  "elementK (mkElement EI udls nodes i) a b = elementK (mkElement EI udls nodes i) b a"
proof -
  let ?dm = "dofMapOf i"
  let ?kl = "kLocalOf EI (node_x (nodes ! (i + 1)) - node_x (nodes ! i))"
  have "elementK (mkElement EI udls nodes i) a b
      = (\<Sum>r\<in>{0..<4}. \<Sum>c\<in>{0..<4}. if ?dm ! r = a \<and> ?dm ! c = b then ?kl ! r ! c else 0)"
    unfolding elementK_def el_index_mkElement el_kLocal_mkElement interv_sum_list_conv_sum_set_nat set_upt
    by (rule refl)
  also have "\<dots> = (\<Sum>c\<in>{0..<4}. \<Sum>r\<in>{0..<4}. if ?dm ! r = a \<and> ?dm ! c = b then ?kl ! r ! c else 0)"
    by (rule sum.swap)
  also have "\<dots> = (\<Sum>c\<in>{0..<4}. \<Sum>r\<in>{0..<4}. if ?dm ! c = b \<and> ?dm ! r = a then ?kl ! c ! r else 0)"
    by (intro sum.cong refl) (auto simp: kLocalOf_sym)
  also have "\<dots> = elementK (mkElement EI udls nodes i) b a"
    unfolding elementK_def el_index_mkElement el_kLocal_mkElement interv_sum_list_conv_sum_set_nat set_upt
    by (rule refl)
  finally show ?thesis .
qed

lemma stiffness_sym:
  assumes asm: "assembleSystem nodes E I pls udls = (K, F, els)"
    and a: "a < 2 * length nodes" and b: "b < 2 * length nodes"
  shows "K ! a ! b = K ! b ! a"
proof -
  note ent = assembleSystem_entries [OF asm]
  have "(\<Sum>e\<leftarrow>els. elementK e a b) = (\<Sum>e\<leftarrow>els. elementK e b a)"
    unfolding ent(1) by (simp add: comp_def elementK_sym)
  then show ?thesis
    using ent(2) [of a b] ent(2) [of b a] a b by (simp add: mult.commute)
qed

lemma sum_pairs:
  fixes h :: "nat \<Rightarrow> real"
  shows "(\<Sum>a<2 * n. h a) = (\<Sum>i<n. h (2 * i) + h (2 * i + 1))"
  by (induction n) simp_all

lemma vertical_rows_sum:
  assumes asm: "assembleSystem nodes E I pls udls = (K, F, els)"
  shows "(\<Sum>i<length nodes. dotRow (2 * length nodes) (K ! (2 * i)) y) = 0"
proof -
  let ?n = "length nodes" and ?N = "2 * length nodes"
  let ?t = "rigidBody 1 0 nodes"
  have t: "?t ! (2 * i) = 1" "?t ! (2 * i + 1) = 0" "?t ! Suc (2 * i) = 0" if "i < ?n" for i
    using rigidBody_nth [OF that, of 1 0] by simp_all
  have col: "(\<Sum>i<?n. K ! (2 * i) ! b) = 0" if b: "b < ?N" for b
  proof -
    have "(\<Sum>i<?n. K ! (2 * i) ! b) = (\<Sum>i<?n. K ! b ! (2 * i))"
      using b by (intro sum.cong refl stiffness_sym [OF asm]) simp_all
    also have "\<dots> = (\<Sum>i<?n. K ! b ! (2 * i) * ?t ! (2 * i) + K ! b ! (2 * i + 1) * ?t ! (2 * i + 1))"
      by (intro sum.cong refl) (simp add: t)
    also have "\<dots> = dotRow ?N (K ! b) ?t"
      unfolding dotRow_def by (rule sum_pairs [symmetric])
    also have "\<dots> = 0" using stiffness_rigid [OF asm b] .
    finally show ?thesis .
  qed
  have "(\<Sum>i<?n. dotRow ?N (K ! (2 * i)) y) = (\<Sum>i<?n. \<Sum>b<?N. K ! (2 * i) ! b * y ! b)"
    by (simp add: dotRow_def)
  also have "\<dots> = (\<Sum>b<?N. \<Sum>i<?n. K ! (2 * i) ! b * y ! b)"
    by (rule sum.swap)
  also have "\<dots> = (\<Sum>b<?N. (\<Sum>i<?n. K ! (2 * i) ! b) * y ! b)"
    by (simp add: sum_distrib_right)
  also have "\<dots> = 0" using col by simp
  finally show ?thesis .
qed

lemma covered_length:
  fixes xs :: "real list"
  assumes inc: "sorted_wrt (<) xs" and s: "s \<in> set xs" and e: "e \<in> set xs"
  shows "(\<Sum>j<length xs - 1.
            if s \<le> (xs ! j + xs ! (j + 1)) / 2 \<and> (xs ! j + xs ! (j + 1)) / 2 \<le> e
            then xs ! (j + 1) - xs ! j else 0) = max 0 (e - s)"
proof -
  let ?n = "length xs"
  from s obtain a where a: "a < ?n" "xs ! a = s" by (auto simp: in_set_conv_nth)
  from e obtain b where b: "b < ?n" "xs ! b = e" by (auto simp: in_set_conv_nth)
  have less: "xs ! i < xs ! k" if "i < k" "k < ?n" for i k
    using inc that by (simp add: sorted_wrt_iff_nth_less)
  have le: "xs ! i \<le> xs ! k" if "i \<le> k" "k < ?n" for i k
    using less [of i k] that by (cases "i = k") auto
  have cond: "(s \<le> (xs ! j + xs ! (j + 1)) / 2 \<and> (xs ! j + xs ! (j + 1)) / 2 \<le> e) \<longleftrightarrow> a \<le> j \<and> j < b"
    if j: "j < ?n - 1" for j
  proof -
    have j1: "j + 1 < ?n" using j by simp
    have st: "xs ! j < xs ! (j + 1)" using less [of j "j + 1"] j1 by simp
    have lo: "s \<le> (xs ! j + xs ! (j + 1)) / 2 \<longleftrightarrow> a \<le> j"
    proof (cases "a \<le> j")
      case True
      then have "xs ! a \<le> xs ! j" using le [of a j] j1 by simp
      with st True show ?thesis by (simp add: a(2) [symmetric])
    next
      case False
      then have "xs ! (j + 1) \<le> xs ! a" using le [of "j + 1" a] a(1) by simp
      with st False show ?thesis by (simp add: a(2) [symmetric])
    qed
    have hi: "(xs ! j + xs ! (j + 1)) / 2 \<le> e \<longleftrightarrow> j < b"
    proof (cases "j < b")
      case True
      then have "xs ! (j + 1) \<le> xs ! b" using le [of "j + 1" b] b(1) by simp
      with st True show ?thesis by (simp add: b(2) [symmetric])
    next
      case False
      then have "xs ! b \<le> xs ! j" using le [of b j] j1 by simp
      with st False show ?thesis by (simp add: b(2) [symmetric])
    qed
    from lo hi show ?thesis by simp
  qed
  have "(\<Sum>j<?n - 1.
            if s \<le> (xs ! j + xs ! (j + 1)) / 2 \<and> (xs ! j + xs ! (j + 1)) / 2 \<le> e
            then xs ! (j + 1) - xs ! j else 0)
      = (\<Sum>j<?n - 1. if j \<in> {a..<b} then xs ! (j + 1) - xs ! j else 0)"
  proof (rule sum.cong [OF refl])
    fix j assume "j \<in> {..<?n - 1}"
    then have j: "j < ?n - 1" by simp
    show "(if s \<le> (xs ! j + xs ! (j + 1)) / 2 \<and> (xs ! j + xs ! (j + 1)) / 2 \<le> e
            then xs ! (j + 1) - xs ! j else 0)
        = (if j \<in> {a..<b} then xs ! (j + 1) - xs ! j else 0)"
      unfolding cond [OF j] by simp
  qed
  also have "\<dots> = (\<Sum>j\<in>{a..<b}. xs ! (j + 1) - xs ! j)"
  proof -
    have eq: "{..<?n - 1} \<inter> {a..<b} = {a..<b}" using b(1) by auto
    have "(\<Sum>j<?n - 1. if j \<in> {a..<b} then xs ! (j + 1) - xs ! j else 0)
        = (\<Sum>j\<in>{..<?n - 1} \<inter> {a..<b}. xs ! (j + 1) - xs ! j)"
      by (rule sum.inter_restrict [symmetric]) simp
    then show ?thesis by (simp only: eq)
  qed
  also have "\<dots> = max 0 (e - s)"
  proof (cases "a \<le> b")
    case True
    then have "(\<Sum>j\<in>{a..<b}. xs ! (j + 1) - xs ! j) = xs ! b - xs ! a"
      using sum_Suc_diff' [of a b "\<lambda>j. xs ! j"] by simp
    moreover have "xs ! a \<le> xs ! b" using le [OF True b(1)] .
    ultimately show ?thesis by (simp add: a(2) b(2))
  next
    case False
    then have "xs ! b < xs ! a" using less [of b a] a(1) by simp
    with False show ?thesis by (simp add: a(2) b(2))
  qed
  finally show ?thesis .
qed

lemma findIndex_Some:
  "\<exists>x \<in> set xs. P x \<Longrightarrow> \<exists>j < length xs. findIndex P xs = Some j"
  by (induction xs) auto

lemma sum_sum_list_swap2:
  fixes f :: "'a \<Rightarrow> nat \<Rightarrow> real"
  shows "(\<Sum>i\<in>S. \<Sum>p\<leftarrow>ps. f p i) = (\<Sum>p\<leftarrow>ps. \<Sum>i\<in>S. f p i)"
  by (induction ps) (simp_all add: sum.distrib)

lemma pointLoadF_vertical_sum:
  assumes "\<forall>p \<in> set pls. \<exists>nd \<in> set nodes. node_x nd = load_positionMm p"
  shows "(\<Sum>i<length nodes. pointLoadF nodes pls (2 * i)) = - 1000 * (\<Sum>p\<leftarrow>pls. magnitudeKn p)"
proof -
  let ?fi = "\<lambda>p. findIndex (\<lambda>node. node_x node = load_positionMm p) nodes"
  have "(\<Sum>i<length nodes. pointLoadF nodes pls (2 * i))
      = (\<Sum>p\<leftarrow>pls. \<Sum>i<length nodes.
           (case ?fi p of Some j \<Rightarrow> if 2 * i = 2 * j then - (magnitudeKn p * 1000) else 0 | None \<Rightarrow> 0))"
    unfolding pointLoadF_def by (rule sum_sum_list_swap2)
  also have "\<dots> = (\<Sum>p\<leftarrow>pls. - 1000 * magnitudeKn p)"
  proof (intro arg_cong [where f = sum_list] map_cong refl)
    fix p assume "p \<in> set pls"
    with assms obtain j where j: "j < length nodes" "?fi p = Some j"
      using findIndex_Some [of nodes "\<lambda>node. node_x node = load_positionMm p"] by blast
    have "(\<Sum>i<length nodes.
           (case ?fi p of Some j \<Rightarrow> if 2 * i = 2 * j then - (magnitudeKn p * 1000) else 0 | None \<Rightarrow> 0))
        = (\<Sum>i<length nodes. if i = j then - (magnitudeKn p * 1000) else 0)"
      by (simp add: j(2))
    also have "\<dots> = - 1000 * magnitudeKn p" using j(1) by simp
    finally show "(\<Sum>i<length nodes.
           (case ?fi p of Some j \<Rightarrow> if 2 * i = 2 * j then - (magnitudeKn p * 1000) else 0 | None \<Rightarrow> 0))
        = - 1000 * magnitudeKn p" .
  qed
  also have "\<dots> = - 1000 * (\<Sum>p\<leftarrow>pls. magnitudeKn p)"
    by (rule sum_list_const_mult)
  finally show ?thesis .
qed

lemma elementF_vertical_sum:
  assumes j: "j + 1 < n"
  shows "(\<Sum>i<n. elementF (mkElement EI udls nodes j) (2 * i))
       = el_wNPerMm (mkElement EI udls nodes j) * el_length (mkElement EI udls nodes j)"
proof -
  let ?e = "mkElement EI udls nodes j"
  have ff: "el_fFixed ?e ! 0 + el_fFixed ?e ! 2 = el_wNPerMm ?e * el_length ?e"
    by (simp add: mkElement_def fFixedOf_def Let_def)
  have odd: "2 * j + 1 \<noteq> 2 * i" "2 * (j + 1) + 1 \<noteq> 2 * i" for i
    by presburger+
  have "elementF ?e (2 * i) = (if i = j then el_fFixed ?e ! 0 else 0)
        + (if i = j + 1 then el_fFixed ?e ! 2 else 0)" for i
    unfolding elementF_def sum_list_upt_4 el_index_mkElement dofMapOf_nth
    using odd [of i] by auto
  then have "(\<Sum>i<n. elementF ?e (2 * i))
      = (\<Sum>i<n. if i = j then el_fFixed ?e ! 0 else 0) + (\<Sum>i<n. if i = j + 1 then el_fFixed ?e ! 2 else 0)"
    by (simp add: sum.distrib)
  also have "\<dots> = el_fFixed ?e ! 0 + el_fFixed ?e ! 2"
    using j by simp
  finally show ?thesis using ff by simp
qed

lemma node_positions:
  "set (map node_x (buildNodes l sps pl ud)) = {p \<in> set (basePositions l sps pl ud). 0 \<le> p \<and> p \<le> l}"
  by (simp only: map_node_x_buildNodes) simp

lemma udl_vertical_sum:
  assumes inc: "sorted_wrt (<) (map node_x nodes)"
    and ends: "\<forall>u \<in> set udls. startMm u \<in> set (map node_x nodes) \<and> endMm u \<in> set (map node_x nodes)"
  shows "(\<Sum>j<length nodes - 1. el_wNPerMm (mkElement EI udls nodes j) * el_length (mkElement EI udls nodes j))
       = - (\<Sum>u\<leftarrow>udls. magnitudeKnPerM u * max 0 (endMm u - startMm u))"
proof -
  let ?xs = "map node_x nodes"
  let ?n = "length nodes"
  let ?mid = "\<lambda>j. (node_x (nodes ! j) + node_x (nodes ! (j + 1))) / 2"
  let ?L = "\<lambda>j. node_x (nodes ! (j + 1)) - node_x (nodes ! j)"
  have w: "el_wNPerMm (mkElement EI udls nodes j)
         = - (\<Sum>u\<leftarrow>udls. if startMm u \<le> ?mid j \<and> ?mid j \<le> endMm u then magnitudeKnPerM u else 0)" for j
    by (simp add: mkElement_def Let_def getElementUdl_sum)
  have "(\<Sum>j<?n - 1. el_wNPerMm (mkElement EI udls nodes j) * el_length (mkElement EI udls nodes j))
      = - (\<Sum>j<?n - 1. \<Sum>u\<leftarrow>udls. (if startMm u \<le> ?mid j \<and> ?mid j \<le> endMm u then magnitudeKnPerM u * ?L j else 0))"
    unfolding w el_length_mkElement
    by (simp add: sum_negf [symmetric] sum_list_mult_const [symmetric] if_distrib [of "\<lambda>v. v * _"]
        del: sum_list_mult_const cong: if_cong)
  also have "(\<Sum>j<?n - 1. \<Sum>u\<leftarrow>udls. (if startMm u \<le> ?mid j \<and> ?mid j \<le> endMm u then magnitudeKnPerM u * ?L j else 0))
      = (\<Sum>u\<leftarrow>udls. \<Sum>j<?n - 1. (if startMm u \<le> ?mid j \<and> ?mid j \<le> endMm u then magnitudeKnPerM u * ?L j else 0))"
    by (rule sum_sum_list_swap2)
  also have "\<dots> = (\<Sum>u\<leftarrow>udls. magnitudeKnPerM u * max 0 (endMm u - startMm u))"
  proof (intro arg_cong [where f = sum_list] map_cong refl)
    fix u assume u: "u \<in> set udls"
    have "(\<Sum>j<?n - 1. (if startMm u \<le> ?mid j \<and> ?mid j \<le> endMm u then magnitudeKnPerM u * ?L j else 0))
        = magnitudeKnPerM u * (\<Sum>j<?n - 1. (if startMm u \<le> ?mid j \<and> ?mid j \<le> endMm u then ?L j else 0))"
      by (simp add: sum_distrib_left if_distrib [of "\<lambda>v. _ * v"] cong: if_cong)
    also have "(\<Sum>j<?n - 1. (if startMm u \<le> ?mid j \<and> ?mid j \<le> endMm u then ?L j else 0))
        = (\<Sum>j<length ?xs - 1. if startMm u \<le> (?xs ! j + ?xs ! (j + 1)) / 2 \<and> (?xs ! j + ?xs ! (j + 1)) / 2 \<le> endMm u
             then ?xs ! (j + 1) - ?xs ! j else 0)"
      by (intro sum.cong) (simp_all cong: if_cong)
    also have "\<dots> = max 0 (endMm u - startMm u)"
      using ends u by (intro covered_length [OF inc]) auto
    finally show "(\<Sum>j<?n - 1. (if startMm u \<le> ?mid j \<and> ?mid j \<le> endMm u then magnitudeKnPerM u * ?L j else 0))
        = magnitudeKnPerM u * max 0 (endMm u - startMm u)" .
  qed
  finally show ?thesis .
qed

lemma load_vertical_sum:
  assumes asm: "assembleSystem (buildNodes l sps pl ud) E I pl ud = (K, F, els)"
    and loads: "\<forall>p \<in> set pl. 0 \<le> load_positionMm p \<and> load_positionMm p \<le> l"
    and udls: "\<forall>u \<in> set ud. 0 \<le> startMm u \<and> startMm u \<le> l \<and> 0 \<le> endMm u \<and> endMm u \<le> l"
  shows "(\<Sum>i<length (buildNodes l sps pl ud). F ! (2 * i))
       = - 1000 * (\<Sum>p\<leftarrow>pl. magnitudeKn p)
         - (\<Sum>u\<leftarrow>ud. magnitudeKnPerM u * max 0 (endMm u - startMm u))"
proof -
  let ?nodes = "buildNodes l sps pl ud"
  let ?n = "length ?nodes"
  let ?mk = "mkElement (E * I) ud ?nodes"
  note ent = assembleSystem_entries [OF asm]
  have els: "els = map ?mk [0..<?n - 1]" using pipeline_elements [OF asm] .
  have pos: "set (map node_x ?nodes) = {p \<in> set (basePositions l sps pl ud). 0 \<le> p \<and> p \<le> l}"
    by (rule node_positions)
  have located: "\<forall>p \<in> set pl. \<exists>nd \<in> set ?nodes. node_x nd = load_positionMm p"
  proof
    fix p assume p: "p \<in> set pl"
    then have "load_positionMm p \<in> set (map node_x ?nodes)"
      using loads unfolding pos by (simp add: basePositions_def)
    then show "\<exists>nd \<in> set ?nodes. node_x nd = load_positionMm p" by auto
  qed
  have ends: "\<forall>u \<in> set ud. startMm u \<in> set (map node_x ?nodes) \<and> endMm u \<in> set (map node_x ?nodes)"
    using udls unfolding pos by (auto simp: basePositions_def)
  have "(\<Sum>i<?n. F ! (2 * i)) = (\<Sum>i<?n. pointLoadF ?nodes pl (2 * i) + (\<Sum>e\<leftarrow>els. elementF e (2 * i)))"
    using ent(3) by (intro sum.cong refl) simp
  also have "\<dots> = (\<Sum>i<?n. pointLoadF ?nodes pl (2 * i)) + (\<Sum>i<?n. \<Sum>e\<leftarrow>els. elementF e (2 * i))"
    by (rule sum.distrib)
  also have "(\<Sum>i<?n. \<Sum>e\<leftarrow>els. elementF e (2 * i)) = (\<Sum>e\<leftarrow>els. \<Sum>i<?n. elementF e (2 * i))"
    by (rule sum_sum_list_swap2)
  also have "\<dots> = (\<Sum>j\<leftarrow>[0..<?n - 1]. el_wNPerMm (?mk j) * el_length (?mk j))"
    unfolding els map_map comp_def
    by (intro arg_cong [where f = sum_list] map_cong refl elementF_vertical_sum) simp
  also have "\<dots> = (\<Sum>j<?n - 1. el_wNPerMm (?mk j) * el_length (?mk j))"
    by (simp add: interv_sum_list_conv_sum_set_nat atLeast0LessThan)
  also have "\<dots> = - (\<Sum>u\<leftarrow>ud. magnitudeKnPerM u * max 0 (endMm u - startMm u))"
    by (rule udl_vertical_sum [OF strict_sorted_buildNodes ends])
  also have "(\<Sum>i<?n. pointLoadF ?nodes pl (2 * i)) = - 1000 * (\<Sum>p\<leftarrow>pl. magnitudeKn p)"
    by (rule pointLoadF_vertical_sum [OF located])
  finally show ?thesis by simp
qed

lemma zip_upt_nth: "zip xs [0..<length xs] = map (\<lambda>i. (xs ! i, i)) [0..<length xs]"
  by (rule nth_equalityI) simp_all

lemma sum_list_map_filter_option:
  fixes h :: "'b \<Rightarrow> real"
  shows "(\<Sum>y\<leftarrow>List.map_filter g xs. h y) = (\<Sum>x\<leftarrow>xs. case g x of None \<Rightarrow> 0 | Some y \<Rightarrow> h y)"
  by (induction xs) (auto simp: List.map_filter_simps split: option.splits)

lemma reactionTable_sum:
  "(\<Sum>row\<leftarrow>reactionTableOf nodes r. verticalKn row)
     = (\<Sum>i<length nodes. if supportType (nodes ! i) = Free then 0 else r ! (2 * i) / 1000)"
proof -
  have "(\<Sum>row\<leftarrow>reactionTableOf nodes r. verticalKn row)
      = (\<Sum>i\<leftarrow>[0..<length nodes]. if supportType (nodes ! i) = Free then 0 else r ! (i * 2) / 1000)"
    unfolding reactionTableOf_def sum_list_map_filter_option zip_upt_nth
    by (simp add: comp_def Let_def if_distrib [of "case_option _ _"] cong: if_cong)
  also have "\<dots> = (\<Sum>i<length nodes. if supportType (nodes ! i) = Free then 0 else r ! (2 * i) / 1000)"
    unfolding interv_sum_list_conv_sum_set_nat set_upt atLeast0LessThan mult.commute [of _ "2::nat"]
    by (rule refl)
  finally show ?thesis .
qed

lemma reactionsOf_nth:
  "a < length K \<Longrightarrow> reactionsOf K F d ! a = dotRow (length (K ! a)) (K ! a) d - F ! a"
  by (simp add: reactionsOf_def rowTimes_sum dotRow_def)

lemma free_node_dof:
  assumes bc: "applyBoundaryConditions nodes K F = (c, f, Kff, Ff)"
    and lK: "length K = 2 * length nodes"
    and i: "i < length nodes" and free: "supportType (nodes ! i) = Free"
  shows "\<exists>j < length f. f ! j = 2 * i"
proof -
  have c: "set c = {d. \<exists>i < length nodes. (supportType (nodes ! i) = Pinned \<and> d = 2 * i)
                 \<or> (supportType (nodes ! i) = Fixed \<and> (d = 2 * i \<or> d = 2 * i + 1))}"
    using applyBoundaryConditions_facts(1) [OF bc] .
  have odd: "2 * i \<noteq> 2 * i' + 1" for i' :: nat by presburger
  have "2 * i \<notin> set c"
  proof
    assume "2 * i \<in> set c"
    then obtain i' where "i' < length nodes"
      and k: "(supportType (nodes ! i') = Pinned \<and> 2 * i = 2 * i')
                 \<or> (supportType (nodes ! i') = Fixed \<and> (2 * i = 2 * i' \<or> 2 * i = 2 * i' + 1))"
      unfolding c by blast
    from k odd [of i'] have "i' = i \<and> supportType (nodes ! i') \<noteq> Free" by auto
    with free show False by auto
  qed
  moreover from bc have "f = filter (\<lambda>i. i \<notin> set c) [0..<length K]"
    by (auto simp: applyBoundaryConditions_def Let_def)
  ultimately have "2 * i \<in> set f" using i lK by simp
  then show ?thesis by (auto simp: in_set_conv_nth)
qed

lemma reactions_vertical_sum:
  assumes asm: "assembleSystem (buildNodes l sps pl ud) E I pl ud = (K, F, els)"
    and bc: "applyBoundaryConditions (buildNodes l sps pl ud) K F = (c, f, Kff, Ff)"
    and solve: "solveLinearSystem Kff Ff = Some fd"
    and loads: "\<forall>p \<in> set pl. 0 \<le> load_positionMm p \<and> load_positionMm p \<le> l"
    and udls: "\<forall>u \<in> set ud. 0 \<le> startMm u \<and> startMm u \<le> l \<and> 0 \<le> endMm u \<and> endMm u \<le> l"
  shows "(\<Sum>row\<leftarrow>reactionTableOf (buildNodes l sps pl ud)
              (reactionsOf K F (expandDisplacements (length K) f fd)). verticalKn row)
       = (\<Sum>p\<leftarrow>pl. magnitudeKn p)
         + (\<Sum>u\<leftarrow>ud. magnitudeKnPerM u * (max 0 (endMm u - startMm u) / 1000))"
proof -
  let ?nodes = "buildNodes l sps pl ud"
  let ?n = "length ?nodes" and ?N = "2 * length ?nodes"
  have lK: "length K = ?N" using assembleSystem_square(1) [OF asm] by simp
  have lrow: "length (K ! a) = ?N" if "a < ?N" for a
    using assembleSystem_square(2) [OF asm] that lK by (simp add: mult.commute)
  let ?disp = "expandDisplacements ?N f fd"
  let ?r = "reactionsOf K F ?disp"
  have r: "?r ! (2 * i) = dotRow ?N (K ! (2 * i)) ?disp - F ! (2 * i)" if "i < ?n" for i
    using reactionsOf_nth [of "2 * i" K F ?disp] lrow [of "2 * i"] lK that by simp
  have r0: "?r ! (2 * i) = 0" if i: "i < ?n" and free: "supportType (?nodes ! i) = Free" for i
  proof -
    from free_node_dof [OF bc lK i free] obtain j where j: "j < length f" "f ! j = 2 * i" by blast
    from free_residual [OF lK bc solve j(1)] show ?thesis
      by (simp add: r [OF i] j(2))
  qed
  have "(\<Sum>row\<leftarrow>reactionTableOf ?nodes ?r. verticalKn row)
      = (\<Sum>i<?n. if supportType (?nodes ! i) = Free then 0 else ?r ! (2 * i) / 1000)"
    by (rule reactionTable_sum)
  also have "\<dots> = (\<Sum>i<?n. ?r ! (2 * i) / 1000)"
    by (intro sum.cong refl) (simp add: r0)
  also have "\<dots> = (\<Sum>i<?n. dotRow ?N (K ! (2 * i)) ?disp - F ! (2 * i)) / 1000"
    by (simp add: r sum_divide_distrib)
  also have "(\<Sum>i<?n. dotRow ?N (K ! (2 * i)) ?disp - F ! (2 * i))
      = (\<Sum>i<?n. dotRow ?N (K ! (2 * i)) ?disp) - (\<Sum>i<?n. F ! (2 * i))"
    by (rule sum_subtractf)
  also have "\<dots> = 1000 * (\<Sum>p\<leftarrow>pl. magnitudeKn p)
         + (\<Sum>u\<leftarrow>ud. magnitudeKnPerM u * max 0 (endMm u - startMm u))"
    by (simp add: vertical_rows_sum [OF asm] load_vertical_sum [OF asm loads udls])
  also have "\<dots> / 1000 = (\<Sum>p\<leftarrow>pl. magnitudeKn p)
         + (\<Sum>u\<leftarrow>ud. magnitudeKnPerM u * (max 0 (endMm u - startMm u) / 1000))"
    by (simp add: add_divide_distrib sum_list_mult_const [symmetric] del: sum_list_mult_const)
  finally show ?thesis by (simp only: lK)
qed

lemma analysis_success:
  assumes "assembleSystem (buildNodes l sps pl ud) E (inertiaOf w d) pl ud = (K, F, els)"
    and "applyBoundaryConditions (buildNodes l sps pl ud) K F = (c, f, Kff, Ff)"
    and "solveLinearSystem Kff Ff = Some fd"
  shows "analysis l w d E sps pl ud =
    AnalysisResult (buildNodes l sps pl ud)
      (reactionTableOf (buildNodes l sps pl ud) (reactionsOf K F (expandDisplacements (length K) f fd)))
      (computeDiagrams (buildNodes l sps pl ud) els (expandDisplacements (length K) f fd))"
  using assms by (simp add: analysis_def Let_def)


lemma buildNodes_demoFixedUdl:
  "buildNodes 1 demoFixedSupports demoTipLoad demoUdl =
     [\<lparr>node_x = 0, supportType = Fixed\<rparr>, \<lparr>node_x = 1, supportType = Fixed\<rparr>]"
  by (simp add: buildNodes_def basePositions_def uniqueSorted_def new_Set_def nodeAt_def
      demoFixedSupports_def demoTipLoad_def demoUdl_def)


end
